theory Spec2Isabelle
  imports Complex_Main "HOL-Library.Word"
begin

unbundle bit_operations_syntax

section \<open>Data model\<close>

text \<open>
  The notebook works on NumPy arrays. An 8x8 array is a list of 8 rows of 8 entries,
  read as \<open>B ! row ! column\<close>. Signed 8-bit samples (\<open>np.int8\<close>) and unsigned 8-bit
  samples (\<open>np.uint8\<close>) are 8-bit words, read with \<open>sint\<close> and \<open>unat\<close>.
\<close>

type_synonym int8 = "8 word"
type_synonym uint8 = "8 word"
type_synonym 'a block = "'a list list"

definition wf_block :: "'a block \<Rightarrow> bool" where
  "wf_block B \<longleftrightarrow> length B = 8 \<and> (\<forall>row \<in> set B. length row = 8)"

text \<open>Array access \<open>B[index_pair]\<close> with a tuple of row and column.\<close>

definition cell :: "'a block \<Rightarrow> nat \<times> nat \<Rightarrow> 'a" where
  "cell B index_pair = B ! fst index_pair ! snd index_pair"

text \<open>Array update \<open>B[index_pair] = v\<close>.\<close>

definition put :: "'a block \<Rightarrow> nat \<times> nat \<Rightarrow> 'a \<Rightarrow> 'a block" where
  "put B index_pair v = B[fst index_pair := (B ! fst index_pair)[snd index_pair := v]]"

text \<open>An index pair that the array has; NumPy raises an IndexError otherwise.\<close>

definition in_bounds :: "'a block \<Rightarrow> nat \<times> nat \<Rightarrow> bool" where
  "in_bounds B p \<longleftrightarrow> fst p < length B \<and> snd p < length (B ! fst p)"

section \<open>Zig-zag access pattern\<close>

text \<open>
  The inner loop of the generator: for \<open>index_1\<close> in \<open>range(start, length+1-start)\<close>
  the pair \<open>(index_1, length - index_1)\<close> is appended, swapped when \<open>left_right\<close> is
  false.
\<close>

definition diagonal_entry :: "bool \<Rightarrow> nat \<Rightarrow> nat \<Rightarrow> (nat \<times> nat) list" where
  "diagonal_entry left_right start len =
     map (\<lambda>index_1. let index_2 = len - index_1
                     in if left_right then (index_1, index_2) else (index_2, index_1))
         [start ..< len + 1 - start]"

text \<open>
  The outer loop \<open>for length in range(15)\<close>, over the state
  \<open>(zig_zag_index, left_right, start)\<close>.
\<close>

fun zig_zag_loop ::
  "nat list \<Rightarrow> (nat \<times> nat) list list \<times> bool \<times> nat \<Rightarrow> (nat \<times> nat) list list \<times> bool \<times> nat"
where
  "zig_zag_loop [] st = st"
| "zig_zag_loop (len # lens) (zig_zag_index, left_right, start) =
     (let start' = (if len \<ge> 8 then start + 1 else start);
          entry = diagonal_entry left_right start' len
      in zig_zag_loop lens (zig_zag_index @ [entry], \<not> left_right, start'))"

definition zig_zag_index :: "(nat \<times> nat) list list" where
  "zig_zag_index = fst (zig_zag_loop [0 ..< 15] ([], False, 0))"

definition zig_zag_flat :: "(nat \<times> nat) list" where
  "zig_zag_flat = concat zig_zag_index"

text \<open>
  Reading a block along the access pattern, as the encoder does with
  \<open>B_int[zig_zag_flat[i]]\<close>, gives the 64-length zig-zag sequence of the block.
\<close>

definition flatten :: "'a block \<Rightarrow> 'a list" where
  "flatten B = map (cell B) zig_zag_flat"

text \<open>
  The validation cell writes along the access pattern:
  \<open>for i in range(64): access_pattern[zig_zag_flat[i]] = i\<close>. The same loop writing
  the \<open>i\<close>-th entry of a sequence \<open>s\<close> is the inverse reindexing.
\<close>

fun write_pattern :: "'a block \<Rightarrow> (nat \<times> nat) list \<Rightarrow> 'a list \<Rightarrow> 'a block" where
  "write_pattern B (index_pair # pairs) (v # vs) = write_pattern (put B index_pair v) pairs vs"
| "write_pattern B _ _ = B"

definition unflatten :: "'a block \<Rightarrow> 'a list \<Rightarrow> 'a block" where
  "unflatten B0 s = write_pattern B0 zig_zag_flat s"

section \<open>Run-length / symbol encoder\<close>

text \<open>
  \<open>np.abs\<close> on an \<open>np.int8\<close> stays in \<open>np.int8\<close>: the negation wraps, so the absolute
  value of -128 is -128.
\<close>

definition np_abs :: "int8 \<Rightarrow> int8" where
  "np_abs a = (if sint a < 0 then - a else a)"

text \<open>
  The size loop \<open>while (number): size += number & 1; number >>= 1\<close> on a signed
  number. The shift is arithmetic, so a negative number never reaches zero: the loop
  does not return there, which is the value \<open>None\<close>.
\<close>

partial_function (option) count_set_bits :: "int \<Rightarrow> int \<Rightarrow> int option" where
  "count_set_bits number size_acc =
     (if number \<noteq> 0 then count_set_bits (drop_bit 1 number) (size_acc + (number AND 1))
      else Some size_acc)"

declare count_set_bits.simps [code]

record enc_state =
  output_list :: "int list"
  runlength :: nat
  overflow_counter :: nat

text \<open>\<open>np.int8(n)\<close> of an integer, read back as the integer it holds.\<close>

definition np_int8 :: "int \<Rightarrow> int" where
  "np_int8 n = sint (word_of_int n :: int8)"

text \<open>
  The pending pairs written before a nonzero coefficient:
  \<open>for i in range(overflow_counter)\<close> append \<open>np.int8(runlength)<<4\<close> and
  \<open>np.int8(0)\<close>.
\<close>

definition overflow_pairs :: "nat \<Rightarrow> nat \<Rightarrow> int list" where
  "overflow_pairs counter run =
     concat (replicate counter [push_bit 4 (np_int8 (int run)), np_int8 0])"

text \<open>Symbol 1 of a nonzero coefficient: \<open>(np.int8(runlength)<<4) + np.int8(size)\<close>.\<close>

definition symbol_1 :: "nat \<Rightarrow> int \<Rightarrow> int" where
  "symbol_1 run size_acc = push_bit 4 (np_int8 (int run)) + np_int8 size_acc"

text \<open>One pass of the loop body, for the coefficient \<open>amplitude\<close>.\<close>

definition encode_coefficient :: "enc_state \<Rightarrow> int8 \<Rightarrow> enc_state option" where
  "encode_coefficient st amplitude =
     (if amplitude = 0 then
        (let runlength' = runlength st + 1
         in if runlength' = 15
            then Some (st\<lparr>runlength := 0, overflow_counter := overflow_counter st + 1\<rparr>)
            else Some (st\<lparr>runlength := runlength'\<rparr>))
      else
        (case count_set_bits (sint (np_abs amplitude)) 0 of
           None \<Rightarrow> None
         | Some size_acc \<Rightarrow>
             Some (st\<lparr>output_list := output_list st
                               @ overflow_pairs (overflow_counter st) (runlength st)
                               @ [symbol_1 (runlength st) size_acc, sint amplitude],
                      runlength := 0\<rparr>)))"

text \<open>The loop over a list of amplitudes, stopping where the size loop does not return.\<close>

fun encode_loop :: "enc_state \<Rightarrow> int8 list \<Rightarrow> enc_state option" where
  "encode_loop st [] = Some st"
| "encode_loop st (amplitude # rest) =
     (case encode_coefficient st amplitude of
        None \<Rightarrow> None
      | Some st' \<Rightarrow> encode_loop st' rest)"

definition init_state :: enc_state where
  "init_state = \<lparr>output_list = [], runlength = 0, overflow_counter = 0\<rparr>"

text \<open>
  \<open>apply_Huffman_encoding\<close>: the loop runs over \<open>zig_zag_flat[1:]\<close>, the end-of-block
  byte is appended, and the list is stored as an \<open>np.int8\<close> array, which keeps the low
  eight bits of every entry.
\<close>

definition apply_Huffman_encoding :: "int8 block \<Rightarrow> (int8 \<times> int8 list) option" where
  "apply_Huffman_encoding B_int =
     (case encode_loop init_state (map (cell B_int) (drop 1 zig_zag_flat)) of
        None \<Rightarrow> None
      | Some st \<Rightarrow> Some (cell B_int (0, 0), map word_of_int (output_list st @ [np_int8 0])))"

section \<open>Forward DCT\<close>

text \<open>
  The notebook computes the transform in double precision. Every arithmetic operation
  on doubles returns the exact result rounded to a double: \<open>rnd\<close> is that rounding,
  \<open>np_cos\<close> is NumPy's cosine on doubles and \<open>np_pi\<close> the double \<open>np.pi\<close>. The model
  applies \<open>rnd\<close> wherever the code performs a floating-point operation.
\<close>

record float_ops =
  rnd :: "real \<Rightarrow> real"
  np_cos :: "real \<Rightarrow> real"
  np_pi :: real

text \<open>
  What is assumed of double precision. On values of magnitude up to \<open>10 ^ 6\<close> a rounded
  result is within a relative error of \<open>1 / 10 ^ 12\<close> plus an absolute error of
  \<open>1 / 10 ^ 20\<close> of the exact value, and 0 is rounded to 0: IEEE 754 doubles round to
  nearest within a relative error of \<open>1 / 2 ^ 53\<close> in the normal range and within an
  absolute error of \<open>1 / 2 ^ 1075\<close> below it. The cosine of an argument of magnitude
  up to 100 and the constant \<open>np.pi\<close> are within \<open>1 / 10 ^ 12\<close> of the exact values.
\<close>

definition float_accurate :: "float_ops \<Rightarrow> bool" where
  "float_accurate fo \<longleftrightarrow>
     (\<forall>x. \<bar>x\<bar> \<le> 10 ^ 6 \<longrightarrow> \<bar>rnd fo x - x\<bar> \<le> \<bar>x\<bar> / 10 ^ 12 + 1 / 10 ^ 20)
     \<and> rnd fo 0 = 0
     \<and> (\<forall>z. \<bar>z\<bar> \<le> 100 \<longrightarrow> \<bar>np_cos fo z - cos z\<bar> \<le> 1 / 10 ^ 12)
     \<and> \<bar>np_pi fo - pi\<bar> \<le> 1 / 10 ^ 12"

text \<open>Arithmetic without rounding error.\<close>

definition exact_ops :: float_ops where
  "exact_ops = \<lparr>rnd = (\<lambda>x. x), np_cos = cos, np_pi = pi\<rparr>"

text \<open>The factor \<open>np.cos((2. * i + 1) * j * np.pi / 16.)\<close>.\<close>

definition cos_factor :: "float_ops \<Rightarrow> nat \<Rightarrow> nat \<Rightarrow> real" where
  "cos_factor fo i j =
     np_cos fo (rnd fo (rnd fo (rnd fo (rnd fo (rnd fo (2 * real i) + 1) * real j) * np_pi fo) / 16))"

text \<open>
  \<open>perform_DCT_on_block\<close> reads the 8x8 window of the plane \<open>g_int\<close> at
  \<open>(offset_y, offset_x)\<close>. For every frequency pair the accumulator starts at 0.0 and
  takes the 64 products in the order of the two inner loops; it is then scaled by
  \<open>1./4. * alpha_v * alpha_u\<close>.
\<close>

definition perform_DCT_on_block :: "float_ops \<Rightarrow> int8 block \<Rightarrow> nat \<Rightarrow> nat \<Rightarrow> real block" where
  "perform_DCT_on_block fo g_int offset_y offset_x =
     (let sqrt2_inv = rnd fo (1 / rnd fo (sqrt 2))
      in map (\<lambda>i_v. map (\<lambda>i_u.
            let G = foldl (\<lambda>G (i_y, i_x).
                       rnd fo (G + rnd fo (rnd fo
                         (real_of_int (sint (cell g_int (offset_y + i_y, offset_x + i_x)))
                          * cos_factor fo i_x i_u)
                         * cos_factor fo i_y i_v)))
                     0 (List.product [0 ..< 8] [0 ..< 8]);
                alpha_v = (if i_v = 0 then sqrt2_inv else 1);
                alpha_u = (if i_u = 0 then sqrt2_inv else 1)
            in rnd fo (G * rnd fo (rnd fo (rnd fo (1 / 4) * alpha_v) * alpha_u)))
          [0 ..< 8]) [0 ..< 8])"

text \<open>The factor \<open>alpha\<close> of the transform as the specification names it.\<close>

definition alpha :: "nat \<Rightarrow> real" where
  "alpha i = (if i = 0 then 1 / sqrt 2 else 1)"

section \<open>Quantizer\<close>

text \<open>
  \<open>np.round\<close> gives the nearest integer and, half way between two integers, the even
  one.
\<close>

definition np_round :: "real \<Rightarrow> int" where
  "np_round x =
     (let f = \<lfloor>x\<rfloor>; d = x - of_int f
      in if d < 1 / 2 then f else if 1 / 2 < d then f + 1 else if even f then f else f + 1)"

text \<open>
  \<open>perform_quantization_on_block\<close>: every cell is \<open>np.int8(np.round(G / Q))\<close>. The
  conversion to \<open>np.int8\<close> keeps the low eight bits of the rounded quotient; this is
  what NumPy does as long as the rounded quotient is a 32-bit integer, and the
  statements about the quantizer stay within that range. The entries of \<open>Q\<close> are
  natural numbers; a zero entry is outside the model (NumPy gives an infinity there,
  HOL gives 0).
\<close>

definition perform_quantization_on_block :: "real block \<Rightarrow> nat block \<Rightarrow> int8 block" where
  "perform_quantization_on_block G_int Q =
     map (\<lambda>i_v. map (\<lambda>i_u.
            word_of_int (np_round (cell G_int (i_v, i_u) / real (cell Q (i_v, i_u)))))
          [0 ..< 8]) [0 ..< 8]"

text \<open>Rounding half away from zero, as the specification words the quantizer.\<close>

definition round_half_away_from_zero :: "real \<Rightarrow> int" where
  "round_half_away_from_zero x = (if 0 \<le> x then \<lfloor>x + 1 / 2\<rfloor> else - \<lfloor>- x + 1 / 2\<rfloor>)"

section \<open>Color transform\<close>

text \<open>
  The three right-hand sides of the conversion loop, for a pixel of \<open>np.uint8\<close>
  components, over the reals.
\<close>

definition Y_value :: "uint8 \<Rightarrow> uint8 \<Rightarrow> uint8 \<Rightarrow> real" where
  "Y_value c1 c2 c3 = 0 + 0.299 * real (unat c1) + 0.587 * real (unat c2) + 0.114 * real (unat c3)"

definition Cb_value :: "uint8 \<Rightarrow> uint8 \<Rightarrow> uint8 \<Rightarrow> real" where
  "Cb_value c1 c2 c3 =
     128 - 0.168736 * real (unat c1) - 0.331264 * real (unat c2) + 0.5 * real (unat c3)"

definition Cr_value :: "uint8 \<Rightarrow> uint8 \<Rightarrow> uint8 \<Rightarrow> real" where
  "Cr_value c1 c2 c3 =
     128 + 0.5 * real (unat c1) - 0.418688 * real (unat c2) - 0.081312 * real (unat c3)"

text \<open>
  Truncation toward zero, and \<open>np.uint8\<close> of a float: the low eight bits of the
  truncated value.
\<close>

definition truncate :: "real \<Rightarrow> int" where
  "truncate x = (if 0 \<le> x then \<lfloor>x\<rfloor> else \<lceil>x\<rceil>)"

definition np_uint8 :: "real \<Rightarrow> uint8" where
  "np_uint8 x = word_of_int (truncate x)"

section \<open>Example inputs\<close>

text \<open>The block whose cell at each position holds its own zig-zag position.\<close>

definition example_block :: "int block" where
  "example_block =
     [[0, 1, 5, 6, 14, 15, 27, 28],
      [2, 4, 7, 13, 16, 26, 29, 42],
      [3, 8, 12, 17, 25, 30, 41, 43],
      [9, 11, 18, 24, 31, 40, 44, 53],
      [10, 19, 23, 32, 39, 45, 52, 54],
      [20, 22, 33, 38, 46, 51, 55, 60],
      [21, 34, 37, 47, 50, 56, 59, 61],
      [35, 36, 48, 49, 57, 58, 62, 63]]"

text \<open>A quantized block with DC value 7 and no AC coefficient.\<close>

definition dc_only_block :: "int8 block" where
  "dc_only_block =
     [[7, 0, 0, 0, 0, 0, 0, 0],
      [0, 0, 0, 0, 0, 0, 0, 0],
      [0, 0, 0, 0, 0, 0, 0, 0],
      [0, 0, 0, 0, 0, 0, 0, 0],
      [0, 0, 0, 0, 0, 0, 0, 0],
      [0, 0, 0, 0, 0, 0, 0, 0],
      [0, 0, 0, 0, 0, 0, 0, 0],
      [0, 0, 0, 0, 0, 0, 0, 0]]"

text \<open>
  The number of bits needed to write a magnitude, the size that the JPEG standard uses.
\<close>

definition bit_length :: "int \<Rightarrow> nat" where
  "bit_length m = (LEAST n. m < 2 ^ n)"

text \<open>
  Quantized blocks with DC value 7 whose AC sequences are: 15 zeros and then 5; 16 zeros
  and then 5; 15 zeros and then 1, 1; 8 zeros and then 1.
\<close>

definition run15_block :: "int8 block" where
  "run15_block =
     [[7, 0, 0, 0, 0, 0, 0, 0],
      [0, 0, 0, 0, 5, 0, 0, 0],
      [0, 0, 0, 0, 0, 0, 0, 0],
      [0, 0, 0, 0, 0, 0, 0, 0],
      [0, 0, 0, 0, 0, 0, 0, 0],
      [0, 0, 0, 0, 0, 0, 0, 0],
      [0, 0, 0, 0, 0, 0, 0, 0],
      [0, 0, 0, 0, 0, 0, 0, 0]]"

definition run16_block :: "int8 block" where
  "run16_block =
     [[7, 0, 0, 0, 0, 0, 0, 0],
      [0, 0, 0, 0, 0, 0, 0, 0],
      [0, 0, 0, 5, 0, 0, 0, 0],
      [0, 0, 0, 0, 0, 0, 0, 0],
      [0, 0, 0, 0, 0, 0, 0, 0],
      [0, 0, 0, 0, 0, 0, 0, 0],
      [0, 0, 0, 0, 0, 0, 0, 0],
      [0, 0, 0, 0, 0, 0, 0, 0]]"

definition two_after_run15_block :: "int8 block" where
  "two_after_run15_block =
     [[7, 0, 0, 0, 0, 0, 0, 0],
      [0, 0, 0, 0, 1, 0, 0, 0],
      [0, 0, 0, 1, 0, 0, 0, 0],
      [0, 0, 0, 0, 0, 0, 0, 0],
      [0, 0, 0, 0, 0, 0, 0, 0],
      [0, 0, 0, 0, 0, 0, 0, 0],
      [0, 0, 0, 0, 0, 0, 0, 0],
      [0, 0, 0, 0, 0, 0, 0, 0]]"

definition run8_block :: "int8 block" where
  "run8_block =
     [[7, 0, 0, 0, 0, 0, 0, 0],
      [0, 0, 0, 0, 0, 0, 0, 0],
      [0, 0, 0, 0, 0, 0, 0, 0],
      [1, 0, 0, 0, 0, 0, 0, 0],
      [0, 0, 0, 0, 0, 0, 0, 0],
      [0, 0, 0, 0, 0, 0, 0, 0],
      [0, 0, 0, 0, 0, 0, 0, 0],
      [0, 0, 0, 0, 0, 0, 0, 0]]"

text \<open>
  Quantized blocks with DC value 7 whose AC sequences are: -128 alone; 15 zeros and then
  1, -128.
\<close>

definition minus128_block :: "int8 block" where
  "minus128_block =
     [[7, - 128, 0, 0, 0, 0, 0, 0],
      [0, 0, 0, 0, 0, 0, 0, 0],
      [0, 0, 0, 0, 0, 0, 0, 0],
      [0, 0, 0, 0, 0, 0, 0, 0],
      [0, 0, 0, 0, 0, 0, 0, 0],
      [0, 0, 0, 0, 0, 0, 0, 0],
      [0, 0, 0, 0, 0, 0, 0, 0],
      [0, 0, 0, 0, 0, 0, 0, 0]]"

definition run15_one_minus128_block :: "int8 block" where
  "run15_one_minus128_block =
     [[7, 0, 0, 0, 0, 0, 0, 0],
      [0, 0, 0, 0, 1, 0, 0, 0],
      [0, 0, 0, - 128, 0, 0, 0, 0],
      [0, 0, 0, 0, 0, 0, 0, 0],
      [0, 0, 0, 0, 0, 0, 0, 0],
      [0, 0, 0, 0, 0, 0, 0, 0],
      [0, 0, 0, 0, 0, 0, 0, 0],
      [0, 0, 0, 0, 0, 0, 0, 0]]"

text \<open>The 8x8 array filled with one value.\<close>

definition uniform_block :: "'a \<Rightarrow> 'a block" where
  "uniform_block k = replicate 8 (replicate 8 k)"

text \<open>The cosine factor of the transform summed over the eight samples of a row.\<close>

definition cos_row :: "nat \<Rightarrow> real" where
  "cos_row i_u = (\<Sum>i_x\<leftarrow>[0 ..< 8]. cos ((2 * real i_x + 1) * real i_u * pi / 16))"

section \<open>Properties of the size loop\<close>

lemma finite_bits_nonneg:
  assumes "0 \<le> (n::int)"
  shows "finite {i. bit n i}"
proof -
  have "i \<le> nat n" if "bit n i" for i
  proof (rule ccontr)
    assume "\<not> i \<le> nat n"
    then have "n < int i" by linarith
    also have "int i < 2 ^ i" by (metis of_nat_less_two_power)
    finally have "n div 2 ^ i = 0" using assms by simp
    with that show False by (simp add: bit_iff_odd)
  qed
  then have "{i. bit n i} \<subseteq> {.. nat n}" by auto
  then show ?thesis by (rule finite_subset) simp
qed

lemma bits_split:
  "{i. bit (n::int) i} = (if odd n then {0} else {}) \<union> Suc ` {i. bit (n div 2) i}"
proof (rule set_eqI)
  fix i show "i \<in> {i. bit n i} \<longleftrightarrow> i \<in> (if odd n then {0} else {}) \<union> Suc ` {i. bit (n div 2) i}"
    by (cases i) (auto simp: bit_0 bit_Suc)
qed

lemma card_bits_step:
  assumes "0 \<le> (n::int)"
  shows "int (card {i. bit n i}) = n mod 2 + int (card {i. bit (n div 2) i})"
proof -
  have fin: "finite {i. bit (n div 2) i}"
    using assms by (intro finite_bits_nonneg) simp
  have "card ((if odd n then {0} else {}) \<union> Suc ` {i. bit (n div 2) i})
        = card (if odd n then {0::nat} else {}) + card (Suc ` {i. bit (n div 2) i})"
    using fin by (intro card_Un_disjoint) auto
  also have "card (Suc ` {i. bit (n div 2) i}) = card {i. bit (n div 2) i}"
    by (simp add: card_image)
  finally show ?thesis
    by (subst bits_split) (auto simp: odd_iff_mod_2_eq_one)
qed

text \<open>On a number that is not negative the loop returns, with the number of set bits.\<close>

lemma count_set_bits_nonneg:
  "0 \<le> n \<Longrightarrow> count_set_bits n s = Some (s + int (card {i. bit n i}))"
proof (induction "nat n" arbitrary: n s rule: less_induct)
  case less
  show ?case
  proof (cases "n = 0")
    case True
    have "{i. bit (0::int) i} = {}" by auto
    then have "int (card {i. bit (0::int) i}) = 0" by (simp only: card.empty of_nat_0)
    then show ?thesis
      unfolding True by (subst count_set_bits.simps) (simp only: if_False simp_thms add_0_right)
  next
    case False
    with less.prems have pos: "0 < n" by simp
    then have smaller: "nat (n div 2) < nat n" by linarith
    have "count_set_bits n s = count_set_bits (n div 2) (s + n mod 2)"
      using False by (subst count_set_bits.simps) (simp add: drop_bit_eq_div and_one_eq)
    also have "\<dots> = Some (s + n mod 2 + int (card {i. bit (n div 2) i}))"
      using less.hyps [OF smaller] pos by simp
    also have "\<dots> = Some (s + int (card {i. bit n i}))"
      using card_bits_step [of n] pos by simp
    finally show ?thesis .
  qed
qed

text \<open>On a negative number the loop does not return.\<close>

lemma count_set_bits_Some_nonneg:
  assumes "count_set_bits n s = Some y"
  shows "0 \<le> n"
proof (rule count_set_bits.raw_induct [where P = "\<lambda>n s y. 0 \<le> n", OF _ assms])
  fix f :: "int \<Rightarrow> int \<Rightarrow> int option" and number size_acc y :: int
  assume hyp: "\<And>a b y. f a b = Some y \<Longrightarrow> 0 \<le> a"
    and body: "(if number \<noteq> 0 then f (drop_bit 1 number) (size_acc + (number AND 1))
                else Some size_acc) = Some y"
  show "0 \<le> number"
  proof (cases "number = 0")
    case True then show ?thesis by simp
  next
    case False
    from body have "f (drop_bit 1 number) (size_acc + (number AND 1)) = Some y"
      by (simp only: if_P [OF False])
    then have "0 \<le> drop_bit 1 number" by (rule hyp)
    then show ?thesis by (simp add: drop_bit_eq_div)
  qed
qed

lemma count_set_bits_negative: "n < 0 \<Longrightarrow> count_set_bits n s = None"
  using count_set_bits_Some_nonneg [of n s] by (cases "count_set_bits n s") auto

section \<open>Properties of the encoder loop\<close>

lemma sint_int8_range: "- 128 \<le> sint (a::int8) \<and> sint a < 128"
  using sint_ge [of a] sint_lt [of a] by simp

lemma np_abs_regular:
  assumes "sint a \<noteq> - 128"
  shows "sint (np_abs a) = \<bar>sint a\<bar>"
proof (cases "sint a < 0")
  case True
  have "- 128 \<le> - sint a" "- sint a < 128"
    using sint_int8_range [of a] assms True by linarith+
  then have "signed_take_bit 7 (- sint a) = - sint a"
    by (intro signed_take_bit_int_eq_self) simp_all
  with True show ?thesis by (simp add: np_abs_def sint_word_minus)
next
  case False
  then show ?thesis by (simp add: np_abs_def)
qed

lemma np_abs_minimum:
  assumes "sint a = - 128"
  shows "sint (np_abs a) = - 128"
proof -
  have "signed_take_bit 7 (128::int) = - 128" by simp
  with assms show ?thesis by (simp add: np_abs_def sint_word_minus)
qed

lemma encode_coefficient_zero:
  "encode_coefficient st 0 =
     Some (if runlength st + 1 = 15
           then st\<lparr>runlength := 0, overflow_counter := overflow_counter st + 1\<rparr>
           else st\<lparr>runlength := runlength st + 1\<rparr>)"
  by (simp add: encode_coefficient_def Let_def)

lemma encode_coefficient_nonzero:
  assumes "amplitude \<noteq> 0" and "sint amplitude \<noteq> - 128"
  shows "encode_coefficient st amplitude =
     Some (st\<lparr>output_list := output_list st
                       @ overflow_pairs (overflow_counter st) (runlength st)
                       @ [symbol_1 (runlength st) (int (card {i. bit \<bar>sint amplitude\<bar> i})),
                          sint amplitude],
                runlength := 0\<rparr>)"
proof -
  have "count_set_bits (sint (np_abs amplitude)) 0
        = Some (int (card {i. bit \<bar>sint amplitude\<bar> i}))"
    using count_set_bits_nonneg [of "\<bar>sint amplitude\<bar>" 0] assms(2)
    by (simp add: np_abs_regular)
  with assms(1) show ?thesis by (simp add: encode_coefficient_def)
qed

lemma encode_coefficient_minimum:
  assumes "sint amplitude = - 128"
  shows "encode_coefficient st amplitude = None"
proof -
  from assms have "amplitude \<noteq> 0" by auto
  moreover have "count_set_bits (sint (np_abs amplitude)) 0 = None"
    using assms by (simp add: np_abs_minimum count_set_bits_negative)
  ultimately show ?thesis by (simp add: encode_coefficient_def)
qed

lemma encode_loop_append:
  "encode_loop st (xs @ ys) =
     (case encode_loop st xs of None \<Rightarrow> None | Some st' \<Rightarrow> encode_loop st' ys)"
  by (induction xs arbitrary: st) (auto split: option.splits)

text \<open>A run of zeros only moves the two counters; the run length counts modulo 15.\<close>

lemma encode_loop_zeros:
  assumes "runlength st < 15"
  shows "encode_loop st (replicate k 0) =
     Some (st\<lparr>runlength := (runlength st + k) mod 15,
               overflow_counter := overflow_counter st + (runlength st + k) div 15\<rparr>)"
  using assms
proof (induction k arbitrary: st)
  case 0
  then show ?case by simp
next
  case (Suc k)
  show ?case
  proof (cases "runlength st + 1 = 15")
    case True
    then have r: "runlength st = 14" by simp
    have "(15 + k) mod 15 = k mod 15" "(15 + k) div 15 = 1 + k div 15"
      by simp_all
    with r Suc.IH [of "st\<lparr>runlength := 0, overflow_counter := overflow_counter st + 1\<rparr>"]
    show ?thesis by (simp add: encode_coefficient_zero)
  next
    case False
    with Suc.prems have "runlength st + 1 < 15" by simp
    with False Suc.IH [of "st\<lparr>runlength := runlength st + 1\<rparr>"]
    show ?thesis by (simp add: encode_coefficient_zero)
  qed
qed

section \<open>Properties of the zig-zag pattern\<close>

lemma zig_zag_flat_eq:
  "zig_zag_flat =
    [(0, 0), (0, 1), (1, 0), (2, 0), (1, 1), (0, 2), (0, 3), (1, 2), (2, 1),
  (3, 0), (4, 0), (3, 1), (2, 2), (1, 3), (0, 4), (0, 5), (1, 4), (2, 3),
  (3, 2), (4, 1), (5, 0), (6, 0), (5, 1), (4, 2), (3, 3), (2, 4), (1, 5),
  (0, 6), (0, 7), (1, 6), (2, 5), (3, 4), (4, 3), (5, 2), (6, 1), (7, 0),
  (7, 1), (6, 2), (5, 3), (4, 4), (3, 5), (2, 6), (1, 7), (2, 7), (3, 6),
  (4, 5), (5, 4), (6, 3), (7, 2), (7, 3), (6, 4), (5, 5), (4, 6), (3, 7),
  (4, 7), (5, 6), (6, 5), (7, 4), (7, 5), (6, 6), (5, 7), (6, 7), (7, 6),
  (7, 7)]"
  by code_simp

lemma zig_zag_flat_distinct: "distinct zig_zag_flat"
  by code_simp

lemma zig_zag_flat_set: "set zig_zag_flat = {0 ..< 8} \<times> {0 ..< 8}"
  by code_simp

lemma zig_zag_flat_first: "zig_zag_flat ! 0 = (0, 0)"
  by (simp add: zig_zag_flat_eq)

lemma zig_zag_flat_last: "zig_zag_flat ! 63 = (7, 7)"
  by (simp add: zig_zag_flat_eq)

lemma zig_zag_index_diagonals:
  "zig_zag_index = map (\<lambda>d. if odd d then map (\<lambda>i. (i, d - i)) [d - 7 ..< min d 7 + 1]
                              else map (\<lambda>i. (d - i, i)) [d - 7 ..< min d 7 + 1]) [0 ..< 15]"
  by code_simp

lemma length_put: "length (put B p v) = length B"
  by (simp add: put_def)

lemma length_row_put: "length (put B p v ! i) = length (B ! i)"
  by (cases "i = fst p"; cases "fst p < length B") (simp_all add: put_def list_update_beyond)

lemma in_bounds_put: "in_bounds (put B p v) q = in_bounds B q"
  by (simp add: in_bounds_def length_put length_row_put)

lemma cell_put:
  assumes "in_bounds B p"
  shows "cell (put B p v) q = (if q = p then v else cell B q)"
proof (cases "fst q = fst p")
  case True
  show ?thesis
  proof (cases "snd q = snd p")
    case True
    with \<open>fst q = fst p\<close> have "q = p" by (simp add: prod_eq_iff)
    with assms show ?thesis by (simp add: cell_def put_def in_bounds_def)
  next
    case False
    then have "q \<noteq> p" by auto
    with False \<open>fst q = fst p\<close> assms show ?thesis
      by (simp add: cell_def put_def in_bounds_def)
  qed
next
  case False
  then have "q \<noteq> p" by auto
  with False show ?thesis by (simp add: cell_def put_def)
qed

lemma write_pattern_shape:
  "length (write_pattern B ps vs) = length B
   \<and> length (write_pattern B ps vs ! i) = length (B ! i)"
  by (induction B ps vs rule: write_pattern.induct) (simp_all add: length_put length_row_put)

lemma cell_write_pattern_other:
  "q \<notin> set ps \<Longrightarrow> \<forall>p \<in> set ps. in_bounds B p
   \<Longrightarrow> cell (write_pattern B ps vs) q = cell B q"
proof (induction B ps vs rule: write_pattern.induct)
  case (1 B p ps v vs)
  then show ?case by (simp add: in_bounds_put cell_put)
qed simp_all

lemma cell_write_pattern_map:
  "distinct ps \<Longrightarrow> \<forall>p \<in> set ps. in_bounds B p \<Longrightarrow> q \<in> set ps
   \<Longrightarrow> cell (write_pattern B ps (map f ps)) q = f q"
proof (induction ps arbitrary: B)
  case Nil
  then show ?case by simp
next
  case (Cons p ps)
  show ?case
  proof (cases "q = p")
    case True
    with Cons.prems have "q \<notin> set ps" by simp
    then have "cell (write_pattern (put B p (f p)) ps (map f ps)) q = cell (put B p (f p)) q"
      using Cons.prems by (intro cell_write_pattern_other) (simp_all add: in_bounds_put)
    with True Cons.prems show ?thesis by (simp add: cell_put)
  next
    case False
    with Cons.prems have "q \<in> set ps" by simp
    then have "cell (write_pattern (put B p (f p)) ps (map f ps)) q = f q"
      using Cons.prems by (intro Cons.IH) (simp_all add: in_bounds_put)
    then show ?thesis by simp
  qed
qed

lemma wf_block_in_bounds:
  "wf_block B \<Longrightarrow> p \<in> set zig_zag_flat \<Longrightarrow> in_bounds B p"
  by (auto simp: wf_block_def in_bounds_def zig_zag_flat_set)

lemma block_eqI:
  assumes "wf_block A" "wf_block B"
    and "\<And>i j. i < 8 \<Longrightarrow> j < 8 \<Longrightarrow> cell A (i, j) = cell B (i, j)"
  shows "A = B"
proof (rule nth_equalityI)
  show "length A = length B" using assms by (simp add: wf_block_def)
next
  fix i assume "i < length A"
  with assms have i: "i < 8" "length (A ! i) = 8" "length (B ! i) = 8"
    by (auto simp: wf_block_def)
  show "A ! i = B ! i"
  proof (rule nth_equalityI)
    show "length (A ! i) = length (B ! i)" using i by simp
  next
    fix j assume "j < length (A ! i)"
    with i have "j < 8" by simp
    from assms(3) [OF \<open>i < 8\<close> this] show "A ! i ! j = B ! i ! j" by (simp add: cell_def)
  qed
qed

lemma wf_block_unflatten: "wf_block B0 \<Longrightarrow> wf_block (unflatten B0 s)"
  unfolding wf_block_def unflatten_def
  by (metis write_pattern_shape in_set_conv_nth)

lemma unflatten_flatten:
  assumes "wf_block B0" "wf_block B"
  shows "unflatten B0 (flatten B) = B"
proof (rule block_eqI)
  show "wf_block (unflatten B0 (flatten B))" using assms(1) by (rule wf_block_unflatten)
  show "wf_block B" by fact
next
  fix i j :: nat assume "i < 8" "j < 8"
  then have "(i, j) \<in> set zig_zag_flat" by (simp add: zig_zag_flat_set)
  then show "cell (unflatten B0 (flatten B)) (i, j) = cell B (i, j)"
    unfolding unflatten_def flatten_def
    using zig_zag_flat_distinct wf_block_in_bounds [OF assms(1)]
    by (intro cell_write_pattern_map) simp_all
qed


text \<open>
  Claim C4. The generated zig-zag sequence has 64 entries and maps the positions 0..63
  one-to-one onto the 64 cells of the 8x8 grid; position 0 is the cell (0,0) and position
  63 the cell (7,7); it is the concatenation of the 15 anti-diagonals, the odd ones
  walked with the row growing and the even ones with the column growing; and for every
  8x8 integer block, reading it along the sequence and writing the result back along
  the sequence gives the block again.
\<close>

theorem zig_zag_bijection_round_trip:
  "length zig_zag_flat = 64
   \<and> bij_betw (\<lambda>i. zig_zag_flat ! i) {0 ..< 64} ({0 ..< 8} \<times> {0 ..< 8})
   \<and> zig_zag_flat ! 0 = (0, 0)
   \<and> zig_zag_flat ! 63 = (7, 7)
   \<and> zig_zag_flat = concat zig_zag_index
   \<and> zig_zag_index =
        map (\<lambda>d. if odd d then map (\<lambda>i. (i, d - i)) [d - 7 ..< min d 7 + 1]
                  else map (\<lambda>i. (d - i, i)) [d - 7 ..< min d 7 + 1]) [0 ..< 15]
   \<and> (\<forall>B0 B :: int block. wf_block B0 \<and> wf_block B \<longrightarrow> unflatten B0 (flatten B) = B)"
proof -
  have len: "length zig_zag_flat = 64" by (simp add: zig_zag_flat_eq)
  have "bij_betw (\<lambda>i. zig_zag_flat ! i) {..< length zig_zag_flat} (set zig_zag_flat)"
    using zig_zag_flat_distinct by (intro bij_betw_nth) simp_all
  then have bij: "bij_betw (\<lambda>i. zig_zag_flat ! i) {0 ..< 64} ({0 ..< 8} \<times> {0 ..< 8})"
    by (simp add: len zig_zag_flat_set lessThan_atLeast0)
  have trip: "\<forall>B0 B :: int block. wf_block B0 \<and> wf_block B \<longrightarrow> unflatten B0 (flatten B) = B"
    by (simp add: unflatten_flatten)
  from len bij zig_zag_flat_first zig_zag_flat_last zig_zag_flat_def zig_zag_index_diagonals trip
  show ?thesis by (intro conjI)
qed

text \<open>The round trip at \<open>example_block\<close>, written over an all-zero array.\<close>

theorem zig_zag_bijection_round_trip_witness:
  "wf_block (replicate 8 (replicate 8 (0::int))) \<and> wf_block example_block
   \<and> unflatten (replicate 8 (replicate 8 0)) (flatten example_block) = example_block"
proof -
  have a: "wf_block (replicate 8 (replicate 8 (0::int)))" by (simp add: wf_block_def)
  have b: "wf_block example_block" by (simp add: wf_block_def example_block_def)
  from zig_zag_bijection_round_trip a b show ?thesis by blast
qed

text \<open>
  The validation cell of the notebook writes the positions 0..63 along the pattern; the
  array it prints is \<open>example_block\<close>.
\<close>

lemma access_pattern: "unflatten (uniform_block 0) (map int [0 ..< 64]) = example_block"
  by code_simp

section \<open>Encoder: blocks without AC coefficients\<close>

text \<open>
  Claim C3. For a block whose zig-zag sequence has 63 zero AC entries, the encoder
  returns the entry at position 0 as the DC value and an AC output that is the single
  end-of-block byte 0: no overflow pair is written.
\<close>

theorem all_zero_ac_gives_end_of_block:
  assumes "wf_block B_int" and "drop 1 (flatten B_int) = replicate 63 0"
  shows "apply_Huffman_encoding B_int = Some (flatten B_int ! 0, [0])"
proof -
  have "map (cell B_int) (drop 1 zig_zag_flat) = replicate 63 0"
    using assms(2) by (simp add: flatten_def drop_map)
  moreover have "encode_loop init_state (replicate 63 0)
      = Some (init_state\<lparr>runlength := 3, overflow_counter := 4\<rparr>)"
    using encode_loop_zeros [of init_state 63] by (simp add: init_state_def)
  moreover have "flatten B_int ! 0 = cell B_int (0, 0)"
    by (simp add: flatten_def zig_zag_flat_eq)
  ultimately show ?thesis
    by (simp add: apply_Huffman_encoding_def init_state_def np_int8_def)
qed

text \<open>
  The 63 zeros raise the overflow counter four times (63 = 4 * 15 + 3), but with no
  nonzero coefficient after them no overflow pair is ever written.
\<close>

lemma all_zero_ac_final_state:
  "encode_loop init_state (replicate 63 0) =
     Some \<lparr>output_list = [], runlength = 3, overflow_counter = 4\<rparr>"
  using encode_loop_zeros [of init_state 63] by (simp add: init_state_def)

lemma flatten_dc_only_block: "flatten dc_only_block = 7 # replicate 63 0"
  by code_simp

text \<open>The block with DC value 7 and no AC coefficient encodes to 7 and the byte 0.\<close>

theorem all_zero_ac_gives_end_of_block_witness:
  "wf_block dc_only_block \<and> drop 1 (flatten dc_only_block) = replicate 63 0
   \<and> apply_Huffman_encoding dc_only_block = Some (7, [0])"
proof -
  have a: "wf_block dc_only_block" by (simp add: wf_block_def dc_only_block_def)
  have b: "drop 1 (flatten dc_only_block) = replicate 63 0"
    by (simp add: flatten_dc_only_block)
  from all_zero_ac_gives_end_of_block [OF a b] a b show ?thesis
    by (simp add: flatten_dc_only_block)
qed

lemma np_int8_in_range: "- 128 \<le> n \<Longrightarrow> n < 128 \<Longrightarrow> np_int8 n = n"
  by (simp add: np_int8_def sint_sbintrunc' signed_take_bit_int_eq_self)

lemma symbol_1_value:
  "run < 128 \<Longrightarrow> - 128 \<le> size_acc \<Longrightarrow> size_acc < 128
   \<Longrightarrow> symbol_1 run size_acc = 16 * int run + size_acc"
  by (simp add: symbol_1_def np_int8_in_range push_bit_eq_mult)

lemma overflow_pairs_symbol_1:
  "overflow_pairs counter run = concat (replicate counter [symbol_1 run 0, 0])"
  by (simp add: overflow_pairs_def symbol_1_def np_int8_def)

lemma length_overflow_pairs: "length (overflow_pairs counter run) = 2 * counter"
  by (induction counter) (simp_all add: overflow_pairs_def)

lemma and_15_int: "(x::int) AND 15 = x mod 16"
proof -
  have m: "(15::int) = mask 4" by (simp add: mask_eq_exp_minus_1)
  have "x AND mask 4 = take_bit 4 x" by (simp only: take_bit_eq_mask)
  also have "\<dots> = x mod 16" by (simp add: take_bit_eq_mod)
  finally show ?thesis by (simp only: m)
qed

lemma low_nibble_of_byte: "uint ((word_of_int k :: int8) AND 15) = k mod 16"
proof -
  have "uint ((word_of_int k :: int8) AND 15) = (k mod 256) AND 15"
    by (simp add: uint_and uint_word_of_int)
  also have "\<dots> = k mod 256 mod 16" by (rule and_15_int)
  also have "\<dots> = k mod 16" by (simp add: mod_mod_cancel)
  finally show ?thesis .
qed

lemma size_field_of_symbol_1:
  assumes "0 \<le> size_acc" "size_acc < 16"
  shows "uint ((word_of_int (symbol_1 run size_acc) :: int8) AND 15) = size_acc"
proof -
  have "np_int8 size_acc = size_acc"
    using assms by (intro np_int8_in_range) simp_all
  then have "symbol_1 run size_acc = 16 * np_int8 (int run) + size_acc"
    by (simp add: symbol_1_def push_bit_eq_mult)
  then have "symbol_1 run size_acc mod 16 = size_acc"
    using assms by simp
  then show ?thesis by (simp add: low_nibble_of_byte)
qed

lemma bits_below:
  assumes "0 \<le> (n::int)" "n < 2 ^ k"
  shows "{i. bit n i} \<subseteq> {..< k}"
proof
  fix i assume "i \<in> {i. bit n i}"
  then have b: "bit n i" by simp
  show "i \<in> {..< k}"
  proof (rule ccontr)
    assume "i \<notin> {..< k}"
    then have "k \<le> i" by simp
    then have "(2::int) ^ k \<le> 2 ^ i" by simp
    with assms have "n < 2 ^ i" by linarith
    with assms have "n div 2 ^ i = 0" by simp
    with b show False by (simp add: bit_iff_odd)
  qed
qed

lemma card_bits_le:
  assumes "0 \<le> (n::int)" "n < 2 ^ k"
  shows "card {i. bit n i} \<le> k"
  using card_mono [OF _ bits_below [OF assms]] by simp

lemma card_bits_int8:
  "card {i. bit \<bar>sint (a::int8)\<bar> i} \<le> 8"
proof -
  have "\<bar>sint a\<bar> < 2 ^ 8" using sint_int8_range [of a] by (simp add: abs_if)
  then show ?thesis by (intro card_bits_le) simp_all
qed

lemma card_bits_5: "card {i. bit (5::int) i} = 2"
proof -
  have "count_set_bits 5 0 = Some 2" by (simp add: count_set_bits.simps)
  with count_set_bits_nonneg [of 5 0] show ?thesis by simp
qed

lemma bit_length_5: "bit_length 5 = 3"
  unfolding bit_length_def
proof (rule Least_equality)
  show "(5::int) < 2 ^ 3" by simp
next
  fix n :: nat assume a: "(5::int) < 2 ^ n"
  show "3 \<le> n"
  proof (rule ccontr)
    assume "\<not> 3 \<le> n"
    then have "n \<le> 2" by simp
    then have "(2::int) ^ n \<le> 2 ^ 2" by (intro power_increasing) simp_all
    with a show False by simp
  qed
qed

lemma encode_coefficient_invariant:
  assumes "encode_coefficient st amplitude = Some st'" and "runlength st < 15"
  shows "runlength st' < 15 \<and> overflow_counter st \<le> overflow_counter st'"
  using assms
  by (cases "amplitude = 0")
     (auto simp: encode_coefficient_zero encode_coefficient_def split: if_splits option.splits)

lemma encode_loop_invariant:
  "encode_loop st xs = Some st' \<Longrightarrow> runlength st < 15
   \<Longrightarrow> runlength st' < 15 \<and> overflow_counter st \<le> overflow_counter st'"
proof (induction xs arbitrary: st)
  case Nil
  then show ?case by simp
next
  case (Cons a xs)
  from Cons.prems(1) obtain s1 where s1: "encode_coefficient st a = Some s1"
    and rest: "encode_loop s1 xs = Some st'"
    by (auto split: option.splits)
  from encode_coefficient_invariant [OF s1 Cons.prems(2)]
  have "runlength s1 < 15" "overflow_counter st \<le> overflow_counter s1" by simp_all
  with Cons.IH [OF rest] show ?case by simp
qed

lemma encode_loop_15_zeros:
  assumes "runlength st < 15"
  shows "encode_loop st (replicate 15 0) = Some (st\<lparr>overflow_counter := overflow_counter st + 1\<rparr>)"
proof -
  have "(runlength st + 15) mod 15 = runlength st" "(runlength st + 15) div 15 = 1"
    using assms by simp_all
  with encode_loop_zeros [OF assms, of 15] show ?thesis by simp
qed


lemma flatten_run15_block: "flatten run15_block = 7 # replicate 15 0 @ [5] @ replicate 47 0"
  by code_simp

lemma flatten_run16_block: "flatten run16_block = 7 # replicate 16 0 @ [5] @ replicate 46 0"
  by code_simp

lemma flatten_two_after_run15_block:
  "flatten two_after_run15_block = 7 # replicate 15 0 @ [1, 1] @ replicate 46 0"
  by code_simp

lemma flatten_run8_block: "flatten run8_block = 7 # replicate 8 0 @ [1] @ replicate 54 0"
  by code_simp

lemma encode_run15: "encode_loop init_state (replicate 15 0 @ [5] @ replicate 47 0)
  = Some \<lparr>output_list = [0, 0, 2, 5], runlength = 2, overflow_counter = 4\<rparr>"
  by code_simp

lemma encode_run16: "encode_loop init_state (replicate 16 0 @ [5] @ replicate 46 0)
  = Some \<lparr>output_list = [16, 0, 18, 5], runlength = 1, overflow_counter = 4\<rparr>"
  by code_simp

lemma encoding_of_sequence:
  assumes "drop 1 (flatten B_int) = acs" and "encode_loop init_state acs = Some st"
  shows "apply_Huffman_encoding B_int
         = Some (flatten B_int ! 0, map word_of_int (output_list st @ [0]))"
proof -
  have "map (cell B_int) (drop 1 zig_zag_flat) = acs"
    using assms(1) by (simp only: flatten_def drop_map)
  moreover have "flatten B_int ! 0 = cell B_int (0, 0)"
    by (simp add: flatten_def zig_zag_flat_eq)
  moreover have "np_int8 0 = 0" by (simp add: np_int8_def)
  ultimately show ?thesis
    unfolding apply_Huffman_encoding_def using assms(2) by simp
qed

lemma drop_flatten_run15_block:
  "drop 1 (flatten run15_block) = replicate 15 0 @ [5] @ replicate 47 0"
  unfolding flatten_run15_block by simp

lemma drop_flatten_run16_block:
  "drop 1 (flatten run16_block) = replicate 16 0 @ [5] @ replicate 46 0"
  unfolding flatten_run16_block by simp

section \<open>Encoder: the overflow boundary\<close>

text \<open>
  At 15 zeros followed by 5 the encoder does not write the pair (run=15, size=3): the
  15th zero already counts as an overflow, and the size of 5 is 2.
\<close>

theorem run_of_15_zeros_counterexample:
  "drop 1 (flatten run15_block) = replicate 15 0 @ [5] @ replicate 47 0
   \<and> apply_Huffman_encoding run15_block = Some (7, [0, 0, 2, 5, 0])
   \<and> apply_Huffman_encoding run15_block \<noteq> Some (7, [word_of_int (15 * 16 + 3), 5, 0])"
proof -
  have "flatten run15_block ! 0 = 7" by (simp add: flatten_run15_block)
  with encoding_of_sequence [OF drop_flatten_run15_block encode_run15]
  have "apply_Huffman_encoding run15_block = Some (7, [0, 0, 2, 5, 0])" by simp
  with drop_flatten_run15_block show ?thesis by simp
qed

text \<open>
  Claim C1, as the code has it. For an AC sequence of 15 zeros followed by 5, the
  encoder writes one overflow pair (size field 0, amplitude byte 0), then the pair
  (run=0, size=2) with amplitude byte 5, then the end-of-block byte. For 16 zeros
  followed by 5 it writes one overflow pair (size field 0, amplitude byte 0), then the
  pair (run=1, size=2) with amplitude byte 5, then the end-of-block byte.
\<close>

theorem run_of_15_or_16_zeros_then_5:
  assumes "wf_block B_int"
  shows "(drop 1 (flatten B_int) = replicate 15 0 @ [5] @ replicate 47 0 \<longrightarrow>
            (\<exists>s. apply_Huffman_encoding B_int = Some (flatten B_int ! 0, [s, 0, 2, 5, 0])
                 \<and> s AND 15 = 0))
       \<and> (drop 1 (flatten B_int) = replicate 16 0 @ [5] @ replicate 46 0 \<longrightarrow>
            (\<exists>s. apply_Huffman_encoding B_int = Some (flatten B_int ! 0, [s, 0, 18, 5, 0])
                 \<and> s AND 15 = 0))"
proof (intro conjI impI)
  assume "drop 1 (flatten B_int) = replicate 15 0 @ [5] @ replicate 47 0"
  from encoding_of_sequence [OF this encode_run15]
  have "apply_Huffman_encoding B_int = Some (flatten B_int ! 0, [0, 0, 2, 5, 0])" by simp
  then show "\<exists>s. apply_Huffman_encoding B_int = Some (flatten B_int ! 0, [s, 0, 2, 5, 0])
                 \<and> s AND 15 = 0"
    by simp
next
  assume "drop 1 (flatten B_int) = replicate 16 0 @ [5] @ replicate 46 0"
  from encoding_of_sequence [OF this encode_run16]
  have "apply_Huffman_encoding B_int = Some (flatten B_int ! 0, [16, 0, 18, 5, 0])" by simp
  then show "\<exists>s. apply_Huffman_encoding B_int = Some (flatten B_int ! 0, [s, 0, 18, 5, 0])
                 \<and> s AND 15 = 0"
    by simp
qed

text \<open>Both cases at the blocks \<open>run15_block\<close> and \<open>run16_block\<close>.\<close>

theorem run_of_15_or_16_zeros_then_5_witness:
  "wf_block run15_block \<and> wf_block run16_block
   \<and> drop 1 (flatten run15_block) = replicate 15 0 @ [5] @ replicate 47 0
   \<and> drop 1 (flatten run16_block) = replicate 16 0 @ [5] @ replicate 46 0
   \<and> (\<exists>s. apply_Huffman_encoding run15_block = Some (7, [s, 0, 2, 5, 0]) \<and> s AND 15 = 0)
   \<and> (\<exists>s. apply_Huffman_encoding run16_block = Some (7, [s, 0, 18, 5, 0]) \<and> s AND 15 = 0)"
proof -
  have a: "wf_block run15_block" by (simp add: wf_block_def run15_block_def)
  have b: "wf_block run16_block" by (simp add: wf_block_def run16_block_def)
  have e: "flatten run15_block ! 0 = 7" "flatten run16_block ! 0 = 7"
    by (simp_all add: flatten_run15_block flatten_run16_block)
  from run_of_15_or_16_zeros_then_5 [OF a] drop_flatten_run15_block
  have "\<exists>s. apply_Huffman_encoding run15_block = Some (flatten run15_block ! 0, [s, 0, 2, 5, 0])
            \<and> s AND 15 = 0" by blast
  moreover from run_of_15_or_16_zeros_then_5 [OF b] drop_flatten_run16_block
  have "\<exists>s. apply_Huffman_encoding run16_block = Some (flatten run16_block ! 0, [s, 0, 18, 5, 0])
            \<and> s AND 15 = 0" by blast
  ultimately show ?thesis
    using a b drop_flatten_run15_block drop_flatten_run16_block unfolding e by blast
qed

section \<open>Cells of the quantized block\<close>

lemma cell_quantization:
  assumes "i_v < 8" "i_u < 8"
  shows "cell (perform_quantization_on_block G_int Q) (i_v, i_u)
         = word_of_int (np_round (cell G_int (i_v, i_u) / real (cell Q (i_v, i_u))))"
  using assms by (simp add: perform_quantization_on_block_def cell_def)

lemma cell_uniform_block: "i < 8 \<Longrightarrow> j < 8 \<Longrightarrow> cell (uniform_block k) (i, j) = k"
  by (simp add: uniform_block_def cell_def)

section \<open>Encoder: where the loop returns\<close>

text \<open>
  The encoder returns exactly on the sequences without the amplitude -128, and the
  output list only grows.
\<close>

lemma word_of_int_sint_int8: "word_of_int (sint a) = (a :: int8)"
  by (simp flip: scast_eq)

lemma encode_coefficient_None_iff:
  "encode_coefficient st amplitude = None \<longleftrightarrow> sint amplitude = - 128"
proof (cases "sint amplitude = - 128")
  case True
  then show ?thesis by (simp add: encode_coefficient_minimum)
next
  case False
  show ?thesis
  proof (cases "amplitude = 0")
    case True
    then show ?thesis by (simp add: encode_coefficient_zero)
  next
    case nz: False
    with False show ?thesis by (simp add: encode_coefficient_nonzero)
  qed
qed

lemma encode_loop_None_iff:
  "encode_loop st xs = None \<longleftrightarrow> (\<exists>a \<in> set xs. sint a = - 128)"
proof (induction xs arbitrary: st)
  case Nil
  show ?case by simp
next
  case (Cons a xs)
  show ?case
  proof (cases "encode_coefficient st a")
    case None
    then have "sint a = - 128" by (simp add: encode_coefficient_None_iff)
    with None show ?thesis by simp
  next
    case (Some s1)
    then have "sint a \<noteq> - 128"
      using encode_coefficient_None_iff [of st a] by simp
    with Some Cons.IH [of s1] show ?thesis by simp
  qed
qed

lemma encode_coefficient_output_grows:
  assumes "encode_coefficient st amplitude = Some st'"
  shows "\<exists>ext. output_list st' = output_list st @ ext"
  using assms
  by (cases "amplitude = 0")
     (auto simp: encode_coefficient_zero encode_coefficient_def split: if_splits option.splits)

lemma encode_loop_output_grows:
  "encode_loop st xs = Some st' \<Longrightarrow> \<exists>ext. output_list st' = output_list st @ ext"
proof (induction xs arbitrary: st)
  case Nil
  then show ?case by simp
next
  case (Cons a xs)
  from Cons.prems obtain s1 where s1: "encode_coefficient st a = Some s1"
    and rest: "encode_loop s1 xs = Some st'"
    by (auto split: option.splits)
  from encode_coefficient_output_grows [OF s1] obtain e1
    where "output_list s1 = output_list st @ e1" by blast
  moreover from Cons.IH [OF rest] obtain e2
    where "output_list st' = output_list s1 @ e2" by blast
  ultimately show ?case by simp
qed


lemma encoding_of_sequence_None:
  assumes "drop 1 (flatten B_int) = acs" and "encode_loop init_state acs = None"
  shows "apply_Huffman_encoding B_int = None"
proof -
  have "map (cell B_int) (drop 1 zig_zag_flat) = acs"
    using assms(1) by (simp only: flatten_def drop_map)
  then show ?thesis
    unfolding apply_Huffman_encoding_def using assms(2) by simp
qed

section \<open>Encoder: the size field\<close>

text \<open>
  For every nonzero amplitude other than -128 the encoder writes a symbol 1 whose low
  four bits are the number of set bits of the absolute value of the amplitude. The
  number of set bits is not the bit length: for 5 they are 2 and 3.
\<close>

lemma size_field_of_regular_amplitude:
  assumes "amplitude \<noteq> 0" and "sint amplitude \<noteq> - 128"
  shows "\<exists>size_acc.
           encode_coefficient st amplitude =
             Some (st\<lparr>output_list := output_list st
                               @ overflow_pairs (overflow_counter st) (runlength st)
                               @ [symbol_1 (runlength st) size_acc, sint amplitude],
                      runlength := 0\<rparr>)
           \<and> size_acc = int (card {i. bit \<bar>sint amplitude\<bar> i})
           \<and> uint ((word_of_int (symbol_1 (runlength st) size_acc) :: int8) AND 15)
               = int (card {i. bit \<bar>sint amplitude\<bar> i})"
proof -
  have "card {i. bit \<bar>sint amplitude\<bar> i} \<le> 8" by (rule card_bits_int8)
  then have "uint ((word_of_int (symbol_1 (runlength st)
                 (int (card {i. bit \<bar>sint amplitude\<bar> i}))) :: int8) AND 15)
             = int (card {i. bit \<bar>sint amplitude\<bar> i})"
    by (intro size_field_of_symbol_1) simp_all
  with encode_coefficient_nonzero [OF assms, of st] show ?thesis by blast
qed

lemma set_bits_are_not_bit_length:
  "card {i. bit \<bar>sint (5 :: int8)\<bar> i} \<noteq> bit_length \<bar>sint (5 :: int8)\<bar>"
  by (simp add: card_bits_5 bit_length_5)

lemma flatten_minus128_block: "flatten minus128_block = 7 # - 128 # replicate 62 0"
  by code_simp

lemma flatten_run15_one_minus128_block:
  "flatten run15_one_minus128_block = 7 # replicate 15 0 @ [1, - 128] @ replicate 46 0"
  by code_simp

lemma sint_minus128: "sint (- 128 :: int8) = - 128"
  by simp

lemma card_bits_1: "card {i. bit (1::int) i} = 1"
proof -
  have "count_set_bits 1 0 = Some 1" by (simp add: count_set_bits.simps)
  with count_set_bits_nonneg [of 1 0] show ?thesis by simp
qed

lemma card_bits_128: "card {i. bit (128::int) i} = 1"
proof -
  have "count_set_bits 128 0 = Some 1" by (simp add: count_set_bits.simps)
  with count_set_bits_nonneg [of 128 0] show ?thesis by simp
qed

lemma quantizer_gives_minus128:
  "cell (perform_quantization_on_block (uniform_block (- 256)) (uniform_block 2)) (0, 1) = - 128"
proof -
  have "np_round (- 128) = - 128" by (simp add: np_round_def Let_def)
  then show ?thesis by (simp add: cell_quantization cell_uniform_block)
qed

text \<open>
  Claim C2, at the input where the code fails it. The amplitude -128 is a nonzero
  coefficient that the quantizer produces (from -256 with table entry 2) and its
  absolute value 128 has one set bit, but \<open>np.abs\<close> leaves the \<open>np.int8\<close> value at
  -128, the size loop never reaches zero on it, and the encoder does not return: no
  size field is written for this coefficient.
\<close>

theorem size_loop_does_not_return_at_minus128:
  "cell (perform_quantization_on_block (uniform_block (- 256)) (uniform_block 2)) (0, 1) = - 128
   \<and> drop 1 (flatten minus128_block) = - 128 # replicate 62 0
   \<and> card {i. bit \<bar>- 128 :: int\<bar> i} = 1
   \<and> encode_coefficient init_state (- 128) = None
   \<and> apply_Huffman_encoding minus128_block = None"
proof -
  have d: "drop 1 (flatten minus128_block) = - 128 # replicate 62 0"
    unfolding flatten_minus128_block by simp
  have "encode_loop init_state (- 128 # replicate 62 0) = None"
    unfolding encode_loop_None_iff using sint_minus128 by simp
  from encoding_of_sequence_None [OF d this]
  have "apply_Huffman_encoding minus128_block = None" .
  moreover have "encode_coefficient init_state (- 128) = None"
    using sint_minus128 by (rule encode_coefficient_minimum)
  ultimately show ?thesis
    using quantizer_gives_minus128 d card_bits_128 by simp
qed

lemma encode_two_after_run15:
  "encode_loop init_state (replicate 15 0 @ [1]) =
     Some \<lparr>output_list = [0, 0, 1, 1], runlength = 0, overflow_counter = 1\<rparr>"
  by code_simp

lemma encode_two_after_run15_all:
  "encode_loop init_state (replicate 15 0 @ [1, 1] @ replicate 46 0) =
     Some \<lparr>output_list = [0, 0, 1, 1, 0, 0, 1, 1], runlength = 1, overflow_counter = 4\<rparr>"
  by code_simp

section \<open>Encoder: the overflow counter\<close>

text \<open>
  Fifteen zeros in a row raise the overflow counter by one, and writing the pending
  overflow pairs does not reset it. So once the input has had 15 zeros in a row,
  whatever follows them, every later nonzero coefficient other than -128 is preceded
  by at least one overflow pair, and the counter is the same after it.
\<close>

lemma overflow_pairs_written_again:
  assumes "encode_loop init_state (pre @ replicate 15 0 @ mid) = Some st"
    and "amplitude \<noteq> 0" and "sint amplitude \<noteq> - 128"
  shows "1 \<le> overflow_counter st
       \<and> (\<exists>size_acc st'.
             encode_coefficient st amplitude = Some st'
             \<and> output_list st' = output_list st
                                  @ overflow_pairs (overflow_counter st) (runlength st)
                                  @ [symbol_1 (runlength st) size_acc, sint amplitude]
             \<and> length (overflow_pairs (overflow_counter st) (runlength st))
                 = 2 * overflow_counter st
             \<and> overflow_counter st' = overflow_counter st)"
proof -
  from assms(1) obtain s1 where s1: "encode_loop init_state pre = Some s1"
    and r1: "encode_loop s1 (replicate 15 0 @ mid) = Some st"
    by (auto simp: encode_loop_append split: option.splits)
  have i1: "runlength s1 < 15"
    using encode_loop_invariant [OF s1] by (simp add: init_state_def)
  from r1 have r2: "encode_loop (s1\<lparr>overflow_counter := overflow_counter s1 + 1\<rparr>) mid = Some st"
    by (simp add: encode_loop_append encode_loop_15_zeros [OF i1])
  from encode_loop_invariant [OF r2] i1
  have "overflow_counter s1 + 1 \<le> overflow_counter st" by simp
  then have "1 \<le> overflow_counter st" by simp
  then show ?thesis
    by (auto simp add: encode_coefficient_nonzero [OF assms(2,3)] length_overflow_pairs)
qed

text \<open>
  Claim C9, at the input where the code fails it. After 15 zeros and the coefficient 1
  the overflow counter is 1 and the pair has been written once; at the next nonzero
  coefficient -128 the size loop does not return, so the overflow pair is not written
  again and the encoder returns nothing.
\<close>

theorem overflow_pairs_not_written_at_minus128:
  "drop 1 (flatten run15_one_minus128_block) = replicate 15 0 @ [1, - 128] @ replicate 46 0
   \<and> encode_loop init_state (replicate 15 0 @ [1]) =
        Some \<lparr>output_list = [0, 0, 1, 1], runlength = 0, overflow_counter = 1\<rparr>
   \<and> encode_coefficient \<lparr>output_list = [0, 0, 1, 1], runlength = 0, overflow_counter = 1\<rparr>
         (- 128) = None
   \<and> apply_Huffman_encoding run15_one_minus128_block = None"
proof -
  have d: "drop 1 (flatten run15_one_minus128_block)
           = replicate 15 0 @ [1, - 128] @ replicate 46 0"
    unfolding flatten_run15_one_minus128_block by simp
  have "encode_loop init_state (replicate 15 0 @ [1, - 128] @ replicate 46 0) = None"
    unfolding encode_loop_None_iff using sint_minus128 by simp
  from encoding_of_sequence_None [OF d this]
  have "apply_Huffman_encoding run15_one_minus128_block = None" .
  moreover have "encode_coefficient
      \<lparr>output_list = [0, 0, 1, 1], runlength = 0, overflow_counter = 1\<rparr> (- 128) = None"
    using sint_minus128 by (rule encode_coefficient_minimum)
  ultimately show ?thesis using d encode_two_after_run15 by simp
qed

section \<open>Encoder: symbol 1 as a signed byte\<close>

lemma stored_symbol_1:
  assumes "run < 16" and "0 \<le> size_acc" and "size_acc < 16"
  shows "sint (word_of_int (symbol_1 run size_acc) :: int8)
           = (if 8 \<le> run then int run * 16 + size_acc - 256 else int run * 16 + size_acc)"
    and "uint (word_of_int (symbol_1 run size_acc) :: int8) = (int run * 16 + size_acc) mod 256"
proof -
  have v: "symbol_1 run size_acc = 16 * int run + size_acc"
    using assms by (intro symbol_1_value) simp_all
  have range: "0 \<le> 16 * int run + size_acc" "16 * int run + size_acc < 256"
    using assms by simp_all
  have "sint (word_of_int k :: int8) = (k + 128) mod 256 - 128" for k
    by (simp add: int_word_sint)
  then have s: "sint (word_of_int (symbol_1 run size_acc) :: int8)
                = (16 * int run + size_acc + 128) mod 256 - 128"
    by (simp only: v)
  have "uint (word_of_int k :: int8) = k mod 256" for k
    by (simp add: uint_word_of_int)
  then show "uint (word_of_int (symbol_1 run size_acc) :: int8) = (int run * 16 + size_acc) mod 256"
    by (simp only: v mult.commute)
  show "sint (word_of_int (symbol_1 run size_acc) :: int8)
           = (if 8 \<le> run then int run * 16 + size_acc - 256 else int run * 16 + size_acc)"
  proof (cases "8 \<le> run")
    case True
    then have big: "128 \<le> 16 * int run + size_acc" using assms by simp
    with range have "(16 * int run + size_acc + 128) mod 256 = 16 * int run + size_acc - 128"
      by (simp add: mod_pos_geq)
    with s True show ?thesis by simp
  next
    case False
    then have small: "16 * int run + size_acc < 128" using assms by simp
    with range have "(16 * int run + size_acc + 128) mod 256 = 16 * int run + size_acc + 128"
      by simp
    with s False show ?thesis by simp
  qed
qed

lemma stored_overflow_pairs:
  "map word_of_int (overflow_pairs counter run)
   = concat (replicate counter [word_of_int (symbol_1 run 0) :: int8, 0])"
  by (simp add: overflow_pairs_symbol_1 map_concat)

text \<open>
  Claim C10. Take any nonzero coefficient of the AC sequence of a block. If the
  sequence holds the amplitude -128 the encoder returns no array. Otherwise the
  returned array consists of the bytes written before this coefficient, its overflow
  pairs, its symbol 1, its amplitude and the rest, and the symbol 1 (of the coefficient
  and of each overflow pair) is stored as the signed 8-bit value of \<open>run * 16 + size\<close>
  modulo 256 in two's complement: for a run length of 8 or more the stored byte is
  \<open>run * 16 + size - 256\<close>, which is negative, and below 8 it is \<open>run * 16 + size\<close>.
\<close>

theorem symbol_1_stored_as_signed_byte:
  assumes "drop 1 (flatten B_int) = pre @ amplitude # post" and "amplitude \<noteq> 0"
  shows "((\<exists>a \<in> set (drop 1 (flatten B_int)). sint a = - 128)
            \<longrightarrow> apply_Huffman_encoding B_int = None)
       \<and> ((\<forall>a \<in> set (drop 1 (flatten B_int)). sint a \<noteq> - 128) \<longrightarrow>
            (\<exists>st b c rest.
               encode_loop init_state pre = Some st
               \<and> apply_Huffman_encoding B_int =
                   Some (flatten B_int ! 0,
                         map word_of_int (output_list st)
                         @ concat (replicate (overflow_counter st) [c, 0])
                         @ [b, amplitude] @ rest)
               \<and> uint b = (int (runlength st) * 16 + int (card {i. bit \<bar>sint amplitude\<bar> i})) mod 256
               \<and> sint b = (if 8 \<le> runlength st
                           then int (runlength st) * 16 + int (card {i. bit \<bar>sint amplitude\<bar> i}) - 256
                           else int (runlength st) * 16 + int (card {i. bit \<bar>sint amplitude\<bar> i}))
               \<and> sint c = (if 8 \<le> runlength st then int (runlength st) * 16 - 256
                           else int (runlength st) * 16)
               \<and> (8 \<le> runlength st \<longrightarrow> sint b < 0 \<and> sint c < 0)))"
proof (intro conjI impI)
  assume "\<exists>a \<in> set (drop 1 (flatten B_int)). sint a = - 128"
  then have "encode_loop init_state (drop 1 (flatten B_int)) = None"
    by (simp only: encode_loop_None_iff)
  with encoding_of_sequence_None [OF refl] show "apply_Huffman_encoding B_int = None" .
next
  let ?n = "card {i. bit \<bar>sint amplitude\<bar> i}"
  assume regular: "\<forall>a \<in> set (drop 1 (flatten B_int)). sint a \<noteq> - 128"
  then have reg_a: "sint amplitude \<noteq> - 128" unfolding assms(1) by simp
  from regular have "encode_loop init_state (pre @ amplitude # post) \<noteq> None"
    unfolding assms(1) by (simp only: encode_loop_None_iff) blast
  then obtain fin where fin: "encode_loop init_state (pre @ amplitude # post) = Some fin"
    by blast
  then obtain st where st: "encode_loop init_state pre = Some st"
    and tail: "encode_loop st (amplitude # post) = Some fin"
    by (auto simp: encode_loop_append split: option.splits)
  let ?s1 = "st\<lparr>output_list := output_list st
                       @ overflow_pairs (overflow_counter st) (runlength st)
                       @ [symbol_1 (runlength st) (int ?n), sint amplitude],
                runlength := 0\<rparr>"
  from tail have post: "encode_loop ?s1 post = Some fin"
    by (simp add: encode_coefficient_nonzero [OF assms(2) reg_a])
  from encode_loop_output_grows [OF post] obtain ext
    where ext: "output_list fin = output_list st
                       @ overflow_pairs (overflow_counter st) (runlength st)
                       @ [symbol_1 (runlength st) (int ?n), sint amplitude] @ ext"
    by auto
  have run: "runlength st < 15"
    using encode_loop_invariant [OF st] by (simp add: init_state_def)
  have n: "?n \<le> 8" by (rule card_bits_int8)
  let ?b = "word_of_int (symbol_1 (runlength st) (int ?n)) :: int8"
  let ?c = "word_of_int (symbol_1 (runlength st) 0) :: int8"
  have b: "sint ?b = (if 8 \<le> runlength st then int (runlength st) * 16 + int ?n - 256
                      else int (runlength st) * 16 + int ?n)"
    and ub: "uint ?b = (int (runlength st) * 16 + int ?n) mod 256"
    using run n by (simp_all only: stored_symbol_1 [of "runlength st" "int ?n"]) 
  have c: "sint ?c = (if 8 \<le> runlength st then int (runlength st) * 16 - 256
                      else int (runlength st) * 16)"
    using run stored_symbol_1(1) [of "runlength st" 0] by simp
  have neg: "8 \<le> runlength st \<longrightarrow> sint ?b < 0 \<and> sint ?c < 0"
    using b c run n by auto
  have "apply_Huffman_encoding B_int =
          Some (flatten B_int ! 0, map word_of_int (output_list fin @ [0]))"
    using encoding_of_sequence [OF assms(1) fin] .
  also have "map word_of_int (output_list fin @ [0])
      = map word_of_int (output_list st)
        @ concat (replicate (overflow_counter st) [?c, 0])
        @ [?b, amplitude] @ (map word_of_int ext @ [0 :: int8])"
    by (simp add: ext stored_overflow_pairs word_of_int_sint_int8)
  finally have out: "apply_Huffman_encoding B_int =
      Some (flatten B_int ! 0,
            map word_of_int (output_list st)
            @ concat (replicate (overflow_counter st) [?c, 0])
            @ [?b, amplitude] @ (map word_of_int ext @ [0 :: int8]))" .
  from st out ub b c neg
  show "\<exists>st b c rest.
               encode_loop init_state pre = Some st
               \<and> apply_Huffman_encoding B_int =
                   Some (flatten B_int ! 0,
                         map word_of_int (output_list st)
                         @ concat (replicate (overflow_counter st) [c, 0])
                         @ [b, amplitude] @ rest)
               \<and> uint b = (int (runlength st) * 16 + int (card {i. bit \<bar>sint amplitude\<bar> i})) mod 256
               \<and> sint b = (if 8 \<le> runlength st
                           then int (runlength st) * 16 + int (card {i. bit \<bar>sint amplitude\<bar> i}) - 256
                           else int (runlength st) * 16 + int (card {i. bit \<bar>sint amplitude\<bar> i}))
               \<and> sint c = (if 8 \<le> runlength st then int (runlength st) * 16 - 256
                           else int (runlength st) * 16)
               \<and> (8 \<le> runlength st \<longrightarrow> sint b < 0 \<and> sint c < 0)"
    by blast
qed

lemma encode_run8:
  "encode_loop init_state (replicate 8 0 @ [1] @ replicate 54 0) =
     Some \<lparr>output_list = [129, 1], runlength = 9, overflow_counter = 3\<rparr>"
  by code_simp

lemma encode_run8_prefix:
  "encode_loop init_state (replicate 8 0) =
     Some \<lparr>output_list = [], runlength = 8, overflow_counter = 0\<rparr>"
  using encode_loop_zeros [of init_state 8] by (simp add: init_state_def)

text \<open>
  The coefficient 1 after 8 zeros: its symbol 1, 129, is stored as -127. The coefficient
  1 in a sequence that also holds -128: no array is returned.
\<close>

theorem symbol_1_stored_as_signed_byte_witness:
  "drop 1 (flatten run8_block) = replicate 8 0 @ 1 # replicate 54 0
   \<and> drop 1 (flatten run15_one_minus128_block) = replicate 15 0 @ 1 # (- 128 # replicate 46 0)
   \<and> (1 :: int8) \<noteq> 0
   \<and> (\<exists>b rest. apply_Huffman_encoding run8_block = Some (7, [b, 1] @ rest) \<and> sint b = - 127)
   \<and> apply_Huffman_encoding run15_one_minus128_block = None"
proof -
  have d8: "drop 1 (flatten run8_block) = replicate 8 0 @ 1 # replicate 54 0"
    unfolding flatten_run8_block by simp
  have dm: "drop 1 (flatten run15_one_minus128_block)
            = replicate 15 0 @ 1 # (- 128 # replicate 46 0)"
    unfolding flatten_run15_one_minus128_block by simp
  have one: "(1 :: int8) \<noteq> 0" by simp
  have reg: "\<forall>a \<in> set (drop 1 (flatten run8_block)). sint a \<noteq> - 128"
    unfolding d8 by auto
  have irr: "\<exists>a \<in> set (drop 1 (flatten run15_one_minus128_block)). sint a = - 128"
    unfolding dm using sint_minus128 by simp
  from symbol_1_stored_as_signed_byte [OF d8 one] reg
  obtain st b c rest where st: "encode_loop init_state (replicate 8 0) = Some st"
    and out: "apply_Huffman_encoding run8_block =
       Some (flatten run8_block ! 0,
             map word_of_int (output_list st) @ concat (replicate (overflow_counter st) [c, 0])
             @ [b, 1] @ rest)"
    and b: "sint b = (if 8 \<le> runlength st
                      then int (runlength st) * 16 + int (card {i. bit \<bar>sint (1 :: int8)\<bar> i}) - 256
                      else int (runlength st) * 16 + int (card {i. bit \<bar>sint (1 :: int8)\<bar> i}))"
    by blast
  from st have st_eq: "st = \<lparr>output_list = [], runlength = 8, overflow_counter = 0\<rparr>"
    by (simp add: encode_run8_prefix)
  have "sint b = - 127" using b by (simp add: st_eq card_bits_1)
  moreover have "apply_Huffman_encoding run8_block = Some (7, [b, 1] @ rest)"
    using out by (simp add: st_eq flatten_run8_block)
  moreover from symbol_1_stored_as_signed_byte [OF dm one] irr
  have "apply_Huffman_encoding run15_one_minus128_block = None" by blast
  ultimately show ?thesis using d8 dm one by blast
qed

lemma run8_block_encoding:
  "apply_Huffman_encoding run8_block = Some (7, [- 127, 1, 0])"
proof -
  have "drop 1 (flatten run8_block) = replicate 8 0 @ [1] @ replicate 54 0"
    unfolding flatten_run8_block by simp
  from encoding_of_sequence [OF this encode_run8] show ?thesis
    by (simp add: flatten_run8_block)
qed

lemma two_after_run15_block_encoding:
  "apply_Huffman_encoding two_after_run15_block = Some (7, [0, 0, 1, 1, 0, 0, 1, 1, 0])"
proof -
  have "drop 1 (flatten two_after_run15_block) = replicate 15 0 @ [1, 1] @ replicate 46 0"
    unfolding flatten_two_after_run15_block by simp
  from encoding_of_sequence [OF this encode_two_after_run15_all] show ?thesis
    by (simp add: flatten_two_after_run15_block)
qed

section \<open>Quantizer: rounding\<close>

lemma floor_frac_bounds: "0 \<le> x - of_int \<lfloor>x\<rfloor> \<and> x - of_int \<lfloor>x\<rfloor> < (1::real)"
  by linarith

lemma np_round_nearest: "\<bar>x - of_int (np_round x)\<bar> \<le> 1 / 2"
  using floor_frac_bounds [of x] by (auto simp: np_round_def Let_def)

lemma np_round_tie_even:
  "x - of_int \<lfloor>x\<rfloor> = 1 / 2 \<Longrightarrow> even (np_round x)"
  by (auto simp: np_round_def Let_def)

lemma np_round_tie_value:
  "x - of_int \<lfloor>x\<rfloor> = 1 / 2 \<Longrightarrow> np_round x = (if even \<lfloor>x\<rfloor> then \<lfloor>x\<rfloor> else \<lfloor>x\<rfloor> + 1)"
  by (auto simp: np_round_def Let_def)

lemma np_round_no_tie:
  assumes "x - of_int \<lfloor>x\<rfloor> \<noteq> 1 / 2"
  shows "np_round x = round_half_away_from_zero x"
proof -
  let ?f = "\<lfloor>x\<rfloor>"
  let ?d = "x - of_int ?f"
  have b: "0 \<le> ?d" "?d < 1" by linarith+
  show ?thesis
  proof (cases "?d < 1 / 2")
    case True
    then have n: "np_round x = ?f" by (simp add: np_round_def Let_def)
    have "\<lfloor>x + 1 / 2\<rfloor> = ?f" using True b by linarith
    moreover have "- \<lfloor>- x + 1 / 2\<rfloor> = ?f" using True b by linarith
    ultimately show ?thesis by (simp add: n round_half_away_from_zero_def)
  next
    case False
    with assms have gt: "1 / 2 < ?d" by simp
    then have n: "np_round x = ?f + 1" by (simp add: np_round_def Let_def)
    have "\<lfloor>x + 1 / 2\<rfloor> = ?f + 1" using gt b by linarith
    moreover have "- \<lfloor>- x + 1 / 2\<rfloor> = ?f + 1" using gt b by linarith
    ultimately show ?thesis by (simp add: n round_half_away_from_zero_def)
  qed
qed

lemma wf_block_quantization: "wf_block (perform_quantization_on_block G_int Q)"
  by (simp add: perform_quantization_on_block_def wf_block_def)

lemma sint_stored: "- 128 \<le> n \<Longrightarrow> n \<le> 127 \<Longrightarrow> sint (word_of_int n :: int8) = n"
  by (simp add: sint_sbintrunc' signed_take_bit_int_eq_self)


lemma np_round_5_2: "np_round (5 / 2) = 2"
  by (simp add: np_round_def Let_def)

lemma np_round_13_5: "np_round (13 / 5) = 3"
  by (simp add: np_round_def Let_def)

lemma np_round_200: "np_round 200 = 200"
  by (simp add: np_round_def Let_def)

text \<open>
  The quotient 5 / 2 is quantized to 2, while rounding half away from zero gives 3.
\<close>

theorem quantizer_tie_counterexample:
  "sint (cell (perform_quantization_on_block (uniform_block 5) (uniform_block 2)) (0, 0)) = 2
   \<and> round_half_away_from_zero (cell (uniform_block 5) (0, 0) / real (cell (uniform_block 2) (0, 0))) = 3"
  by (simp add: cell_quantization cell_uniform_block np_round_5_2 round_half_away_from_zero_def)

text \<open>
  Claim C5, as the code has it. For a table entry of at least 1, the quantized cell is
  the quotient rounded half away from zero whenever the quotient is not half way
  between two integers and the rounded value fits a signed byte; when the quotient is
  half way between two integers, the cell is the even one of the two neighbours.
\<close>

theorem quantizer_rounds_half_to_even:
  assumes "i_v < 8" and "i_u < 8" and "1 \<le> cell Q (i_v, i_u)"
    and "q = cell G_int (i_v, i_u) / real (cell Q (i_v, i_u))"
    and "b = cell (perform_quantization_on_block G_int Q) (i_v, i_u)"
  shows "(q - of_int \<lfloor>q\<rfloor> \<noteq> 1 / 2 \<and> - 128 \<le> round_half_away_from_zero q
            \<and> round_half_away_from_zero q \<le> 127
          \<longrightarrow> sint b = round_half_away_from_zero q)
       \<and> (q - of_int \<lfloor>q\<rfloor> = 1 / 2 \<and> - 128 \<le> \<lfloor>q\<rfloor> \<and> \<lfloor>q\<rfloor> < 127
          \<longrightarrow> sint b = (if even \<lfloor>q\<rfloor> then \<lfloor>q\<rfloor> else \<lfloor>q\<rfloor> + 1))"
proof -
  have b: "b = word_of_int (np_round q)"
    using assms by (simp add: cell_quantization)
  show ?thesis
  proof (intro conjI impI)
    assume a: "q - of_int \<lfloor>q\<rfloor> \<noteq> 1 / 2 \<and> - 128 \<le> round_half_away_from_zero q
            \<and> round_half_away_from_zero q \<le> 127"
    then have "np_round q = round_half_away_from_zero q" by (simp add: np_round_no_tie)
    with a show "sint b = round_half_away_from_zero q" by (simp add: b sint_stored)
  next
    assume a: "q - of_int \<lfloor>q\<rfloor> = 1 / 2 \<and> - 128 \<le> \<lfloor>q\<rfloor> \<and> \<lfloor>q\<rfloor> < 127"
    then have "np_round q = (if even \<lfloor>q\<rfloor> then \<lfloor>q\<rfloor> else \<lfloor>q\<rfloor> + 1)"
      by (simp add: np_round_tie_value)
    moreover from a have "- 128 \<le> (if even \<lfloor>q\<rfloor> then \<lfloor>q\<rfloor> else \<lfloor>q\<rfloor> + 1)"
      "(if even \<lfloor>q\<rfloor> then \<lfloor>q\<rfloor> else \<lfloor>q\<rfloor> + 1) \<le> 127" by auto
    ultimately show "sint b = (if even \<lfloor>q\<rfloor> then \<lfloor>q\<rfloor> else \<lfloor>q\<rfloor> + 1)"
      by (simp only: b sint_stored)
  qed
qed

text \<open>The tie 5 / 2, quantized to 2, and the quotient 13 / 5, quantized to 3.\<close>

theorem quantizer_rounds_half_to_even_witness:
  "(0::nat) < 8 \<and> 1 \<le> cell (uniform_block (2::nat)) (0, 0) \<and> 1 \<le> cell (uniform_block (5::nat)) (0, 0)
   \<and> sint (cell (perform_quantization_on_block (uniform_block 5) (uniform_block 2)) (0, 0)) = 2
   \<and> sint (cell (perform_quantization_on_block (uniform_block 13) (uniform_block 5)) (0, 0)) = 3"
proof -
  have z: "(0::nat) < 8" by simp
  have q2: "1 \<le> cell (uniform_block (2::nat)) (0, 0)" by (simp add: cell_uniform_block)
  have q5: "1 \<le> cell (uniform_block (5::nat)) (0, 0)" by (simp add: cell_uniform_block)
  have tie: "(5 / 2 :: real) - of_int \<lfloor>5 / 2 :: real\<rfloor> = 1 / 2 \<and> - 128 \<le> \<lfloor>5 / 2 :: real\<rfloor>
             \<and> \<lfloor>5 / 2 :: real\<rfloor> < 127" by simp
  have no_tie: "(13 / 5 :: real) - of_int \<lfloor>13 / 5 :: real\<rfloor> \<noteq> 1 / 2
             \<and> - 128 \<le> round_half_away_from_zero (13 / 5)
             \<and> round_half_away_from_zero (13 / 5) \<le> 127"
    by (simp add: round_half_away_from_zero_def)
  have "sint (cell (perform_quantization_on_block (uniform_block 5) (uniform_block 2)) (0, 0)) = 2"
    using quantizer_rounds_half_to_even [OF z z q2, of "5 / 2" "uniform_block 5"
        "cell (perform_quantization_on_block (uniform_block 5) (uniform_block 2)) (0, 0)"] tie
    by (simp add: cell_uniform_block)
  moreover have
    "sint (cell (perform_quantization_on_block (uniform_block 13) (uniform_block 5)) (0, 0)) = 3"
    using quantizer_rounds_half_to_even [OF z z q5, of "13 / 5" "uniform_block 13"
        "cell (perform_quantization_on_block (uniform_block 13) (uniform_block 5)) (0, 0)"] no_tie
    by (simp add: cell_uniform_block round_half_away_from_zero_def)
  ultimately show ?thesis using z q2 q5 by simp
qed

text \<open>
  The quotient 2000 / 10 rounds to 200, which is stored as the signed byte -56: the
  distance between the quotient and the cell is 256.
\<close>

theorem quantizer_out_of_range_counterexample:
  "sint (cell (perform_quantization_on_block (uniform_block 2000) (uniform_block 10)) (0, 0)) = - 56
   \<and> \<not> \<bar>cell (uniform_block 2000) (0, 0) / real (cell (uniform_block 10) (0, 0))
         - real_of_int (sint (cell (perform_quantization_on_block (uniform_block 2000)
                                      (uniform_block 10)) (0, 0)))\<bar> < 1"
  by (simp add: cell_quantization cell_uniform_block np_round_200)

lemma sint_stored_128: "sint (word_of_int 128 :: int8) = - 128"
  by simp

lemma sint_stored_minus129: "sint (word_of_int (- 129) :: int8) = 127"
  by simp

lemma np_round_255_2: "np_round (255 / 2) = 128"
  by (simp add: np_round_def Let_def)

lemma stored_out_of_range:
  assumes "\<not> (- 128 \<le> n \<and> n \<le> 127)"
  shows "2 \<le> \<bar>n - sint (word_of_int n :: int8)\<bar>"
proof -
  have r: "- 128 \<le> sint (word_of_int n :: int8) \<and> sint (word_of_int n :: int8) \<le> 127"
    using sint_int8_range [of "word_of_int n"] by simp
  consider "n = 128" | "n = - 129" | "129 \<le> n" | "n \<le> - 130" using assms by linarith
  then show ?thesis
  proof cases
    case 1
    then show ?thesis by (simp only: sint_stored_128)
  next
    case 2
    then show ?thesis by (simp only: sint_stored_minus129)
  next
    case 3
    with r show ?thesis by linarith
  next
    case 4
    with r show ?thesis by linarith
  qed
qed

text \<open>
  Claim C6, as the code has it. For a table entry of at least 1: where the rounded
  quotient lies within -128..127, the quantized cell differs from the quotient by at
  most 1/2, hence by less than 1; where the rounded quotient lies outside -128..127
  and within the 32-bit integers, the quantized cell does not differ from the quotient
  by less than 1.
\<close>

theorem quantizer_error_by_range:
  assumes "i_v < 8" and "i_u < 8" and "1 \<le> cell Q (i_v, i_u)"
    and "q = cell G_int (i_v, i_u) / real (cell Q (i_v, i_u))"
    and "b = cell (perform_quantization_on_block G_int Q) (i_v, i_u)"
  shows "(- 128 \<le> np_round q \<and> np_round q \<le> 127
            \<longrightarrow> \<bar>q - real_of_int (sint b)\<bar> \<le> 1 / 2 \<and> \<bar>q - real_of_int (sint b)\<bar> < 1)
       \<and> (\<not> (- 128 \<le> np_round q \<and> np_round q \<le> 127)
            \<and> - (2 ^ 31) \<le> np_round q \<and> np_round q < 2 ^ 31
            \<longrightarrow> \<not> \<bar>q - real_of_int (sint b)\<bar> < 1)"
proof -
  have b: "b = word_of_int (np_round q)"
    using assms by (simp add: cell_quantization)
  have near: "\<bar>q - real_of_int (np_round q)\<bar> \<le> 1 / 2" by (rule np_round_nearest)
  show ?thesis
  proof (intro conjI impI)
    assume "- 128 \<le> np_round q \<and> np_round q \<le> 127"
    then have s: "sint b = np_round q" by (simp add: b sint_stored)
    from near show "\<bar>q - real_of_int (sint b)\<bar> \<le> 1 / 2" by (simp only: s)
    from near show "\<bar>q - real_of_int (sint b)\<bar> < 1" unfolding s by linarith
  next
    assume "\<not> (- 128 \<le> np_round q \<and> np_round q \<le> 127)
            \<and> - (2 ^ 31) \<le> np_round q \<and> np_round q < 2 ^ 31"
    then have "\<not> (- 128 \<le> np_round q \<and> np_round q \<le> 127)" by (rule conjunct1)
    then have "2 \<le> \<bar>np_round q - sint b\<bar>" unfolding b by (rule stored_out_of_range)
    then have "2 \<le> \<bar>real_of_int (np_round q) - real_of_int (sint b)\<bar>" by linarith
    with near show "\<not> \<bar>q - real_of_int (sint b)\<bar> < 1" by linarith
  qed
qed

text \<open>
  The quotient 13 / 5 against its cell 3, and the quotient 255 / 2, which rounds to 128
  and is stored as -128.
\<close>

theorem quantizer_error_by_range_witness:
  "(0::nat) < 8 \<and> 1 \<le> cell (uniform_block (5::nat)) (0, 0)
   \<and> 1 \<le> cell (uniform_block (2::nat)) (0, 0)
   \<and> - 128 \<le> np_round (13 / 5) \<and> np_round (13 / 5) \<le> 127
   \<and> \<bar>13 / 5 - real_of_int (sint (cell (perform_quantization_on_block (uniform_block 13)
                                           (uniform_block 5)) (0, 0)))\<bar> < 1
   \<and> np_round (255 / 2) = 128
   \<and> sint (cell (perform_quantization_on_block (uniform_block 255) (uniform_block 2)) (0, 0))
       = - 128
   \<and> \<not> \<bar>255 / 2 - real_of_int (sint (cell (perform_quantization_on_block (uniform_block 255)
                                           (uniform_block 2)) (0, 0)))\<bar> < 1"
proof -
  have z: "(0::nat) < 8" by simp
  have q5: "1 \<le> cell (uniform_block (5::nat)) (0, 0)" by (simp add: cell_uniform_block)
  have q2: "1 \<le> cell (uniform_block (2::nat)) (0, 0)" by (simp add: cell_uniform_block)
  have q: "(13 / 5 :: real) = cell (uniform_block 13) (0, 0) / real (cell (uniform_block 5) (0, 0))"
    by (simp add: cell_uniform_block)
  have q': "(255 / 2 :: real) = cell (uniform_block 255) (0, 0) / real (cell (uniform_block 2) (0, 0))"
    by (simp add: cell_uniform_block)
  have lo: "- 128 \<le> np_round (13 / 5) \<and> np_round (13 / 5) \<le> 127"
    by (simp add: np_round_13_5)
  have out: "\<not> (- 128 \<le> np_round (255 / 2) \<and> np_round (255 / 2) \<le> 127)
             \<and> - (2 ^ 31) \<le> np_round (255 / 2) \<and> np_round (255 / 2) < 2 ^ 31"
    by (simp add: np_round_255_2)
  have s: "sint (cell (perform_quantization_on_block (uniform_block 255) (uniform_block 2)) (0, 0))
       = - 128"
    by (simp add: cell_quantization cell_uniform_block np_round_255_2)
  have "\<bar>13 / 5 - real_of_int (sint (cell (perform_quantization_on_block (uniform_block 13)
                                           (uniform_block 5)) (0, 0)))\<bar> < 1"
    using quantizer_error_by_range [OF z z q5 q refl] lo by blast
  moreover have "\<not> \<bar>255 / 2 - real_of_int (sint (cell (perform_quantization_on_block (uniform_block 255)
                                           (uniform_block 2)) (0, 0)))\<bar> < 1"
    using quantizer_error_by_range [OF z z q2 q' refl] out by blast
  ultimately show ?thesis using z q5 q2 lo s np_round_255_2 by blast
qed

section \<open>Color transform: range\<close>

lemma unat_uint8_range: "0 \<le> real (unat (c::uint8)) \<and> real (unat c) \<le> 255"
proof -
  have "unat c < 2 ^ 8" using unsigned_less [of c] by simp
  then have "unat c \<le> 255" by simp
  then have "real (unat c) \<le> real 255" by (simp only: of_nat_le_iff)
  moreover have "0 \<le> real (unat c)" by (rule of_nat_0_le_iff)
  ultimately show ?thesis by (simp only: of_nat_numeral simp_thms)
qed

lemma Y_affine_bounds:
  fixes a b c :: real
  assumes "0 \<le> a \<and> a \<le> 255" "0 \<le> b \<and> b \<le> 255" "0 \<le> c \<and> c \<le> 255"
  shows "0 \<le> 0 + 0.299 * a + 0.587 * b + 0.114 * c"
    and "0 + 0.299 * a + 0.587 * b + 0.114 * c \<le> 255"
  using assms by (simp_all; linarith)+

lemma Cb_affine_bounds:
  fixes a b c :: real
  assumes "0 \<le> a \<and> a \<le> 255" "0 \<le> b \<and> b \<le> 255" "0 \<le> c \<and> c \<le> 255"
  shows "1 / 2 \<le> 128 - 0.168736 * a - 0.331264 * b + 0.5 * c"
    and "128 - 0.168736 * a - 0.331264 * b + 0.5 * c \<le> 255 + 1 / 2"
  using assms by (simp_all; linarith)+

lemma Cr_affine_bounds:
  fixes a b c :: real
  assumes "0 \<le> a \<and> a \<le> 255" "0 \<le> b \<and> b \<le> 255" "0 \<le> c \<and> c \<le> 255"
  shows "1 / 2 \<le> 128 + 0.5 * a - 0.418688 * b - 0.081312 * c"
    and "128 + 0.5 * a - 0.418688 * b - 0.081312 * c \<le> 255 + 1 / 2"
  using assms by (simp_all; linarith)+

lemma Y_value_bounds: "0 \<le> Y_value c1 c2 c3 \<and> Y_value c1 c2 c3 \<le> 255"
  unfolding Y_value_def
  using Y_affine_bounds [OF unat_uint8_range [of c1] unat_uint8_range [of c2]
      unat_uint8_range [of c3]]
  by (rule conjI)

lemma Cb_value_bounds: "1 / 2 \<le> Cb_value c1 c2 c3 \<and> Cb_value c1 c2 c3 \<le> 255 + 1 / 2"
  unfolding Cb_value_def
  using Cb_affine_bounds [OF unat_uint8_range [of c1] unat_uint8_range [of c2]
      unat_uint8_range [of c3]]
  by (rule conjI)

lemma Cr_value_bounds: "1 / 2 \<le> Cr_value c1 c2 c3 \<and> Cr_value c1 c2 c3 \<le> 255 + 1 / 2"
  unfolding Cr_value_def
  using Cr_affine_bounds [OF unat_uint8_range [of c1] unat_uint8_range [of c2]
      unat_uint8_range [of c3]]
  by (rule conjI)

lemma truncate_in_byte:
  assumes "- 1 < x" and "x < 256"
  shows "0 \<le> truncate x \<and> truncate x \<le> 255 \<and> uint (np_uint8 x) = truncate x"
proof -
  have t: "0 \<le> truncate x \<and> truncate x \<le> 255"
  proof (cases "0 \<le> x")
    case True
    then have "0 \<le> \<lfloor>x\<rfloor>" "\<lfloor>x\<rfloor> \<le> 255" using assms by linarith+
    with True show ?thesis by (simp add: truncate_def)
  next
    case False
    then have "\<lceil>x\<rceil> = 0" using assms by linarith
    with False show ?thesis by (simp add: truncate_def)
  qed
  then have "uint (word_of_int (truncate x) :: uint8) = truncate x"
    by (simp add: uint_word_of_int)
  with t show ?thesis by (simp add: np_uint8_def)
qed

text \<open>
  Claim C7. For every pixel of three unsigned 8-bit components, each of the three
  values of the affine map, truncated toward zero, lies in 0..255, and the conversion to
  an unsigned 8-bit integer gives exactly that truncated value: nothing wraps. The
  notebook computes the values in double precision; \<open>e\<close> stands for the rounding error
  of that computation, and the statement holds for every error below 1/2 (the exact
  values lie in 0..255.5, so the truncation stays in range).
\<close>

theorem color_transform_in_range:
  assumes "\<bar>e\<bar> < 1 / 2"
    and "y = Y_value c1 c2 c3 + e" and "cb = Cb_value c1 c2 c3 + e"
    and "cr = Cr_value c1 c2 c3 + e"
  shows "(0 \<le> truncate y \<and> truncate y \<le> 255 \<and> uint (np_uint8 y) = truncate y)
       \<and> (0 \<le> truncate cb \<and> truncate cb \<le> 255 \<and> uint (np_uint8 cb) = truncate cb)
       \<and> (0 \<le> truncate cr \<and> truncate cr \<le> 255 \<and> uint (np_uint8 cr) = truncate cr)"
proof (intro conjI)
  have "- 1 < y" "y < 256"
    using Y_value_bounds [of c1 c2 c3] assms(1,2) by linarith+
  from truncate_in_byte [OF this]
  show "0 \<le> truncate y" "truncate y \<le> 255" "uint (np_uint8 y) = truncate y" by simp_all
next
  have "- 1 < cb" "cb < 256"
    using Cb_value_bounds [of c1 c2 c3] assms(1,3) by linarith+
  from truncate_in_byte [OF this]
  show "0 \<le> truncate cb" "truncate cb \<le> 255" "uint (np_uint8 cb) = truncate cb" by simp_all
next
  have "- 1 < cr" "cr < 256"
    using Cr_value_bounds [of c1 c2 c3] assms(1,4) by linarith+
  from truncate_in_byte [OF this]
  show "0 \<le> truncate cr" "truncate cr \<le> 255" "uint (np_uint8 cr) = truncate cr" by simp_all
qed

text \<open>The pixel (0, 0, 255) with no rounding error: its values truncate to 29, 255, 107.\<close>

theorem color_transform_in_range_witness:
  "\<bar>0 :: real\<bar> < 1 / 2
   \<and> truncate (Y_value 0 0 255) = 29 \<and> truncate (Cb_value 0 0 255) = 255
   \<and> truncate (Cr_value 0 0 255) = 107
   \<and> uint (np_uint8 (Cb_value 0 0 255)) = 255"
proof -
  have a: "\<bar>0 :: real\<bar> < 1 / 2" by simp
  have v: "truncate (Y_value 0 0 255) = 29" "truncate (Cb_value 0 0 255) = 255"
    "truncate (Cr_value 0 0 255) = 107"
    by (simp_all add: truncate_def Y_value_def Cb_value_def Cr_value_def)
  from color_transform_in_range [OF a, of "Y_value 0 0 255" 0 0 255 "Cb_value 0 0 255"
      "Cr_value 0 0 255"] a v
  show ?thesis by simp
qed

section \<open>Forward DCT: uniform blocks\<close>

lemma cos_sum_telescope:
  "2 * sin a * (\<Sum>x<n. cos ((2 * real x + 1) * a)) = sin (2 * real n * a)"
proof (induction n)
  case 0
  show ?case by simp
next
  case (Suc n)
  have "sin ((2 * real n + 1) * a + a) - sin ((2 * real n + 1) * a - a)
        = 2 * sin a * cos ((2 * real n + 1) * a)"
    by (simp add: sin_add sin_diff)
  moreover have "(2 * real n + 1) * a + a = 2 * real (Suc n) * a"
    by (simp add: algebra_simps)
  moreover have "(2 * real n + 1) * a - a = 2 * real n * a"
    by (simp add: algebra_simps)
  ultimately have step: "2 * sin a * cos ((2 * real n + 1) * a)
        = sin (2 * real (Suc n) * a) - sin (2 * real n * a)"
    by simp
  have "2 * sin a * (\<Sum>x<Suc n. cos ((2 * real x + 1) * a))
        = 2 * sin a * (\<Sum>x<n. cos ((2 * real x + 1) * a)) + 2 * sin a * cos ((2 * real n + 1) * a)"
    by (simp add: algebra_simps)
  also have "\<dots> = sin (2 * real (Suc n) * a)"
    by (simp only: Suc.IH step)
  finally show ?case .
qed

lemma cos_row_0: "cos_row 0 = 8"
  by (simp add: cos_row_def interv_sum_list_conv_sum_set_nat)

lemma cos_row_pos:
  assumes "0 < i_u" "i_u < 8"
  shows "cos_row i_u = 0"
proof -
  let ?a = "real i_u * pi / 16"
  have "cos_row i_u = (\<Sum>x<8. cos ((2 * real x + 1) * ?a))"
    by (simp add: cos_row_def interv_sum_list_conv_sum_set_nat atLeast0LessThan algebra_simps)
  moreover have "2 * sin ?a * (\<Sum>x<8. cos ((2 * real x + 1) * ?a)) = sin (2 * real 8 * ?a)"
    by (rule cos_sum_telescope)
  moreover have "sin (2 * real 8 * ?a) = sin (real i_u * pi)"
    by simp
  moreover have "sin (real i_u * pi) = 0" by (rule sin_npi)
  moreover have "0 < sin ?a"
  proof (rule sin_gt_zero)
    show "0 < ?a" using assms by simp
    have "real i_u < 16" using assms by simp
    then have "real i_u * pi < 16 * pi" by (simp add: pi_gt_zero)
    then show "?a < pi" by simp
  qed
  ultimately show ?thesis by simp
qed


lemma DCT_sum_uniform:
  assumes "\<forall>i_y<8. \<forall>i_x<8. cell g_int (offset_y + i_y, offset_x + i_x) = k"
  shows "(\<Sum>i_y\<leftarrow>[0 ..< 8]. \<Sum>i_x\<leftarrow>[0 ..< 8].
                real_of_int (sint (cell g_int (offset_y + i_y, offset_x + i_x)))
                * cos ((2 * real i_x + 1) * real i_u * pi / 16)
                * cos ((2 * real i_y + 1) * real i_v * pi / 16))
         = real_of_int (sint k) * cos_row i_u * cos_row i_v"
proof -
  let ?K = "real_of_int (sint k)"
  let ?cx = "\<lambda>i_x. cos ((2 * real i_x + 1) * real i_u * pi / 16)"
  let ?cy = "\<lambda>i_y. cos ((2 * real i_y + 1) * real i_v * pi / 16)"
  have inner: "(\<Sum>i_x\<leftarrow>[0 ..< 8].
                  real_of_int (sint (cell g_int (offset_y + i_y, offset_x + i_x))) * ?cx i_x * ?cy i_y)
               = (?K * cos_row i_u) * ?cy i_y" if "i_y < 8" for i_y
  proof -
    have "map (\<lambda>i_x. real_of_int (sint (cell g_int (offset_y + i_y, offset_x + i_x)))
                        * ?cx i_x * ?cy i_y) [0 ..< 8]
          = map (\<lambda>i_x. (?K * ?cy i_y) * ?cx i_x) [0 ..< 8]"
      using that assms by (intro map_cong) simp_all
    then have "(\<Sum>i_x\<leftarrow>[0 ..< 8].
                  real_of_int (sint (cell g_int (offset_y + i_y, offset_x + i_x))) * ?cx i_x * ?cy i_y)
               = (\<Sum>i_x\<leftarrow>[0 ..< 8]. (?K * ?cy i_y) * ?cx i_x)"
      by (simp only:)
    also have "\<dots> = (?K * ?cy i_y) * cos_row i_u"
      unfolding cos_row_def by (rule sum_list_const_mult)
    finally show ?thesis by (simp add: mult_ac)
  qed
  have "map (\<lambda>i_y. \<Sum>i_x\<leftarrow>[0 ..< 8].
                  real_of_int (sint (cell g_int (offset_y + i_y, offset_x + i_x))) * ?cx i_x * ?cy i_y)
            [0 ..< 8]
        = map (\<lambda>i_y. (?K * cos_row i_u) * ?cy i_y) [0 ..< 8]"
    using inner by (intro map_cong) simp_all
  then have "(\<Sum>i_y\<leftarrow>[0 ..< 8]. \<Sum>i_x\<leftarrow>[0 ..< 8].
                  real_of_int (sint (cell g_int (offset_y + i_y, offset_x + i_x))) * ?cx i_x * ?cy i_y)
             = (\<Sum>i_y\<leftarrow>[0 ..< 8]. (?K * cos_row i_u) * ?cy i_y)"
    by (simp only:)
  also have "\<dots> = (?K * cos_row i_u) * cos_row i_v"
    unfolding cos_row_def by (rule sum_list_const_mult)
  finally show ?thesis .
qed

lemma alpha_0_square: "alpha 0 * alpha 0 = 1 / 2"
  by (simp add: alpha_def)

lemma uniform_window: "\<forall>i_y<8. \<forall>i_x<8. cell (uniform_block k) (0 + i_y, 0 + i_x) = k"
  by (simp add: cell_uniform_block)

section \<open>Forward DCT: rounding errors\<close>

lemma rnd_error:
  assumes "float_accurate fo" and "\<bar>x - x0\<bar> \<le> d" and "\<bar>x0\<bar> \<le> M" and "M + d \<le> 10 ^ 6"
  shows "\<bar>rnd fo x - x0\<bar> \<le> d + (M + d) / 10 ^ 12 + 1 / 10 ^ 20"
proof -
  have b: "\<bar>x\<bar> \<le> M + d" using assms(2,3) by linarith
  with assms(4) have "\<bar>x\<bar> \<le> 10 ^ 6" by linarith
  with assms(1) have "\<bar>rnd fo x - x\<bar> \<le> \<bar>x\<bar> / 10 ^ 12 + 1 / 10 ^ 20"
    unfolding float_accurate_def by blast
  moreover from b have "\<bar>x\<bar> / 10 ^ 12 \<le> (M + d) / 10 ^ 12"
    by (rule divide_right_mono) simp
  ultimately show ?thesis using assms(2) by linarith
qed

lemma mult_error:
  fixes x x0 y y0 :: real
  assumes "\<bar>x - x0\<bar> \<le> dx" and "\<bar>x0\<bar> \<le> Mx" and "\<bar>y - y0\<bar> \<le> dy" and "\<bar>y0\<bar> \<le> My"
  shows "\<bar>x * y - x0 * y0\<bar> \<le> dx * My + Mx * dy + dx * dy"
proof -
  have "x * y - x0 * y0 = (x - x0) * y0 + x0 * (y - y0) + (x - x0) * (y - y0)"
    by (simp add: algebra_simps)
  then have "\<bar>x * y - x0 * y0\<bar> \<le> \<bar>(x - x0) * y0\<bar> + \<bar>x0 * (y - y0)\<bar> + \<bar>(x - x0) * (y - y0)\<bar>"
    by linarith
  moreover have "\<bar>(x - x0) * y0\<bar> \<le> dx * My"
    unfolding abs_mult using assms by (intro mult_mono) auto
  moreover have "\<bar>x0 * (y - y0)\<bar> \<le> Mx * dy"
    unfolding abs_mult using assms by (intro mult_mono) auto
  moreover have "\<bar>(x - x0) * (y - y0)\<bar> \<le> dx * dy"
    unfolding abs_mult using assms by (intro mult_mono) auto
  ultimately show ?thesis by linarith
qed


lemma abs_chain:
  fixes x y z :: real
  shows "\<bar>x - y\<bar> \<le> a \<Longrightarrow> \<bar>y - z\<bar> \<le> b \<Longrightarrow> a + b \<le> c \<Longrightarrow> \<bar>x - z\<bar> \<le> c"
  by linarith

lemma cos_lipschitz: "\<bar>cos w - cos z\<bar> \<le> \<bar>w - z\<bar>" for w z :: real
proof -
  have a: "\<bar>sin ((w + z) / 2)\<bar> \<le> 1" by simp
  have b: "\<bar>sin ((z - w) / 2)\<bar> \<le> \<bar>(z - w) / 2\<bar>" by (rule abs_sin_x_le_abs_x)
  have "\<bar>sin ((w + z) / 2)\<bar> * \<bar>sin ((z - w) / 2)\<bar> \<le> 1 * \<bar>(z - w) / 2\<bar>"
    by (rule mult_mono [OF a b]) simp_all
  moreover have "\<bar>cos w - cos z\<bar> = 2 * (\<bar>sin ((w + z) / 2)\<bar> * \<bar>sin ((z - w) / 2)\<bar>)"
    by (simp add: cos_diff_cos abs_mult)
  moreover have "\<bar>(z - w) / 2\<bar> = \<bar>w - z\<bar> / 2" by (simp add: abs_minus_commute)
  ultimately show ?thesis by linarith
qed

lemma cos_factor_error:
  assumes acc: "float_accurate fo" and "i < 8" and "j < 8"
  shows "\<bar>cos_factor fo i j - cos ((2 * real i + 1) * real j * pi / 16)\<bar> \<le> 1 / 10 ^ 9"
proof -
  have i: "0 \<le> real i" "real i \<le> 7" and j: "0 \<le> real j" "real j \<le> 7"
    using assms(2,3) by simp_all
  define r1 where "r1 = rnd fo (2 * real i)"
  define r2 where "r2 = rnd fo (r1 + 1)"
  define r3 where "r3 = rnd fo (r2 * real j)"
  define r4 where "r4 = rnd fo (r3 * np_pi fo)"
  define r5 where "r5 = rnd fo (r4 / 16)"
  have pi_err: "\<bar>np_pi fo - pi\<bar> \<le> 1 / 10 ^ 12"
    using acc by (simp add: float_accurate_def)
  have pi_bound: "\<bar>pi\<bar> \<le> 4" using pi_less_4 pi_gt_zero by simp
  have "\<bar>r1 - 2 * real i\<bar> \<le> 0 + (14 + 0) / 10 ^ 12 + 1 / 10 ^ 20"
    unfolding r1_def using i by (intro rnd_error [OF acc]) simp_all
  then have e1: "\<bar>r1 - 2 * real i\<bar> \<le> 1 / 10 ^ 10" by simp
  have "\<bar>r2 - (2 * real i + 1)\<bar> \<le> 1 / 10 ^ 10 + (15 + 1 / 10 ^ 10) / 10 ^ 12 + 1 / 10 ^ 20"
    unfolding r2_def using i e1 by (intro rnd_error [OF acc]) simp_all
  then have e2: "\<bar>r2 - (2 * real i + 1)\<bar> \<le> 2 / 10 ^ 10" by simp
  have m15: "\<bar>2 * real i + 1\<bar> \<le> 15" using i by simp
  have "\<bar>r2 * real j - (2 * real i + 1) * real j\<bar> \<le> 2 / 10 ^ 10 * 7 + 15 * 0 + 2 / 10 ^ 10 * 0"
    using e2 m15 j by (intro mult_error) simp_all
  then have p3: "\<bar>r2 * real j - (2 * real i + 1) * real j\<bar> \<le> 14 / 10 ^ 10" by simp
  have m105: "\<bar>(2 * real i + 1) * real j\<bar> \<le> 105"
  proof -
    have "\<bar>(2 * real i + 1) * real j\<bar> \<le> 15 * 7"
      unfolding abs_mult using m15 j by (intro mult_mono) simp_all
    then show ?thesis by simp
  qed
  have "\<bar>r3 - (2 * real i + 1) * real j\<bar>
        \<le> 14 / 10 ^ 10 + (105 + 14 / 10 ^ 10) / 10 ^ 12 + 1 / 10 ^ 20"
    unfolding r3_def by (rule rnd_error [OF acc p3 m105]) simp
  then have e3: "\<bar>r3 - (2 * real i + 1) * real j\<bar> \<le> 16 / 10 ^ 10" by simp
  have "\<bar>r3 * np_pi fo - (2 * real i + 1) * real j * pi\<bar>
        \<le> 16 / 10 ^ 10 * 4 + 105 * (1 / 10 ^ 12) + 16 / 10 ^ 10 * (1 / 10 ^ 12)"
    using e3 m105 pi_err pi_bound by (intro mult_error)
  then have p4: "\<bar>r3 * np_pi fo - (2 * real i + 1) * real j * pi\<bar> \<le> 66 / 10 ^ 10" by simp
  have m420: "\<bar>(2 * real i + 1) * real j * pi\<bar> \<le> 420"
  proof -
    have "\<bar>(2 * real i + 1) * real j * pi\<bar> \<le> 105 * 4"
      unfolding abs_mult [of "(2 * real i + 1) * real j" pi] using m105 pi_bound
      by (intro mult_mono) simp_all
    then show ?thesis by simp
  qed
  have "\<bar>r4 - (2 * real i + 1) * real j * pi\<bar>
        \<le> 66 / 10 ^ 10 + (420 + 66 / 10 ^ 10) / 10 ^ 12 + 1 / 10 ^ 20"
    unfolding r4_def by (rule rnd_error [OF acc p4 m420]) simp
  then have e4: "\<bar>r4 - (2 * real i + 1) * real j * pi\<bar> \<le> 72 / 10 ^ 10" by simp
  then have p5: "\<bar>r4 / 16 - (2 * real i + 1) * real j * pi / 16\<bar> \<le> 5 / 10 ^ 10"
    by (simp add: field_simps abs_le_iff)
  have m27: "\<bar>(2 * real i + 1) * real j * pi / 16\<bar> \<le> 27" using m420 by simp
  have "\<bar>r5 - (2 * real i + 1) * real j * pi / 16\<bar>
        \<le> 5 / 10 ^ 10 + (27 + 5 / 10 ^ 10) / 10 ^ 12 + 1 / 10 ^ 20"
    unfolding r5_def by (rule rnd_error [OF acc p5 m27]) simp
  then have e5: "\<bar>r5 - (2 * real i + 1) * real j * pi / 16\<bar> \<le> 6 / 10 ^ 10" by simp
  have "(6 :: real) / 10 ^ 10 \<le> 1" by simp
  with e5 m27 have "\<bar>r5\<bar> \<le> 100" by linarith
  with acc have cos_err: "\<bar>np_cos fo r5 - cos r5\<bar> \<le> 1 / 10 ^ 12"
    unfolding float_accurate_def by blast
  have "\<bar>cos r5 - cos ((2 * real i + 1) * real j * pi / 16)\<bar> \<le> 6 / 10 ^ 10"
    using cos_lipschitz [of r5 "(2 * real i + 1) * real j * pi / 16"] e5 by linarith
  then have "\<bar>np_cos fo r5 - cos ((2 * real i + 1) * real j * pi / 16)\<bar> \<le> 1 / 10 ^ 9"
    by (rule abs_chain [OF cos_err]) simp
  then show ?thesis
    by (simp only: cos_factor_def r1_def r2_def r3_def r4_def r5_def)
qed


lemma rnd_error_scaled:
  assumes "float_accurate fo" and "1 \<le> K" and "K \<le> 128"
    and "\<bar>x - x0\<bar> \<le> a * K" and "\<bar>x0\<bar> \<le> m * K"
    and "0 \<le> m + a" and "m + a \<le> 1000"
    and "a + (m + a) / 10 ^ 12 + 1 / 10 ^ 20 \<le> a'"
  shows "\<bar>rnd fo x - x0\<bar> \<le> a' * K"
proof -
  have K0: "0 \<le> K" using assms(2) by simp
  have "(m + a) * K \<le> 1000 * 128"
    using assms(3,6,7) K0 by (intro mult_mono) simp_all
  then have r: "m * K + a * K \<le> 10 ^ 6" by (simp add: algebra_simps)
  have "\<bar>rnd fo x - x0\<bar> \<le> a * K + (m * K + a * K) / 10 ^ 12 + 1 / 10 ^ 20"
    using assms(1,4,5) r by (rule rnd_error)
  also have "\<dots> \<le> a * K + (m * K + a * K) / 10 ^ 12 + 1 / 10 ^ 20 * K"
    using assms(2) by simp
  also have "\<dots> = (a + (m + a) / 10 ^ 12 + 1 / 10 ^ 20) * K" by (simp add: algebra_simps)
  also have "\<dots> \<le> a' * K" using K0 assms(8) by (rule mult_right_mono [rotated])
  finally show ?thesis .
qed

lemma mult_error_scaled:
  fixes x x0 y y0 :: real
  assumes "0 \<le> K" and "\<bar>x - x0\<bar> \<le> a * K" and "\<bar>x0\<bar> \<le> m * K"
    and "\<bar>y - y0\<bar> \<le> dy" and "\<bar>y0\<bar> \<le> My"
    and "a * My + m * dy + a * dy \<le> a'"
  shows "\<bar>x * y - x0 * y0\<bar> \<le> a' * K"
proof -
  have "\<bar>x * y - x0 * y0\<bar> \<le> a * K * My + m * K * dy + a * K * dy"
    using assms(2-5) by (rule mult_error)
  also have "\<dots> = (a * My + m * dy + a * dy) * K" by (simp add: algebra_simps)
  also have "\<dots> \<le> a' * K" using assms(1,6) by (rule mult_right_mono [rotated])
  finally show ?thesis .
qed

text \<open>One product \<open>g * cos * cos\<close> of the inner loop.\<close>

lemma term_error:
  assumes acc: "float_accurate fo"
    and c1: "\<bar>c1f - c1\<bar> \<le> 1 / 10 ^ 9" "\<bar>c1\<bar> \<le> 1"
    and c2: "\<bar>c2f - c2\<bar> \<le> 1 / 10 ^ 9" "\<bar>c2\<bar> \<le> 1"
    and g: "1 \<le> \<bar>g\<bar>" "\<bar>g\<bar> \<le> 128"
  shows "\<bar>rnd fo (rnd fo (g * c1f) * c2f) - g * c1 * c2\<bar> \<le> 5 / 10 ^ 9 * \<bar>g\<bar>"
    and "\<bar>g * c1 * c2\<bar> \<le> \<bar>g\<bar>"
proof -
  have K: "0 \<le> \<bar>g\<bar>" by simp
  have g0: "\<bar>g - g\<bar> \<le> 0 * \<bar>g\<bar>" and g1: "\<bar>g\<bar> \<le> 1 * \<bar>g\<bar>" by simp_all
  have p1: "\<bar>g * c1f - g * c1\<bar> \<le> 1 / 10 ^ 9 * \<bar>g\<bar>"
    by (rule mult_error_scaled [OF K g0 g1 c1]) simp
  have m1: "\<bar>g * c1\<bar> \<le> 1 * \<bar>g\<bar>"
    unfolding abs_mult using c1(2) by (simp add: mult_left_le)
  have r1: "\<bar>rnd fo (g * c1f) - g * c1\<bar> \<le> 2 / 10 ^ 9 * \<bar>g\<bar>"
    by (rule rnd_error_scaled [OF acc g p1 m1]) simp_all
  have p2: "\<bar>rnd fo (g * c1f) * c2f - g * c1 * c2\<bar> \<le> 4 / 10 ^ 9 * \<bar>g\<bar>"
    by (rule mult_error_scaled [OF K r1 m1 c2]) simp
  have "\<bar>g * c1 * c2\<bar> = \<bar>g * c1\<bar> * \<bar>c2\<bar>" by (simp add: abs_mult)
  also have "\<dots> \<le> (1 * \<bar>g\<bar>) * 1"
    using m1 c2(2) by (intro mult_mono) simp_all
  finally have m2: "\<bar>g * c1 * c2\<bar> \<le> 1 * \<bar>g\<bar>" by simp
  then show "\<bar>g * c1 * c2\<bar> \<le> \<bar>g\<bar>" by simp
  show "\<bar>rnd fo (rnd fo (g * c1f) * c2f) - g * c1 * c2\<bar> \<le> 5 / 10 ^ 9 * \<bar>g\<bar>"
    by (rule rnd_error_scaled [OF acc g p2 m2]) simp_all
qed

text \<open>The accumulation \<open>G += term\<close> over at most 64 terms.\<close>

lemma accumulate_error:
  assumes acc: "float_accurate fo" and K1: "1 \<le> K" and K128: "K \<le> 128"
  shows "(\<forall>p \<in> set ps. \<bar>t p - e p\<bar> \<le> 5 / 10 ^ 9 * K \<and> \<bar>e p\<bar> \<le> K) \<Longrightarrow> length ps \<le> 64
    \<Longrightarrow> \<bar>foldl (\<lambda>G p. rnd fo (G + t p)) 0 ps - (\<Sum>p\<leftarrow>ps. e p)\<bar> \<le> 6 / 10 ^ 9 * (real (length ps) * K)
        \<and> \<bar>\<Sum>p\<leftarrow>ps. e p\<bar> \<le> real (length ps) * K"
proof (induction ps rule: rev_induct)
  case Nil
  show ?case by simp
next
  case (snoc p ps)
  have K: "0 \<le> K" using K1 by simp
  define S where "S = foldl (\<lambda>G p. rnd fo (G + t p)) 0 ps"
  define E where "E = (\<Sum>p\<leftarrow>ps. e p)"
  define X where "X = real (length ps) * K"
  from snoc.prems have len: "length ps \<le> 63" by simp
  then have "real (length ps) \<le> 63" by simp
  then have X: "0 \<le> X" "X \<le> 63 * K"
    unfolding X_def using K by (simp_all add: mult_right_mono)
  from snoc.IH snoc.prems len
  have IH: "\<bar>S - E\<bar> \<le> 6 / 10 ^ 9 * X" "\<bar>E\<bar> \<le> X"
    unfolding S_def E_def X_def by simp_all
  from snoc.prems have p: "\<bar>t p - e p\<bar> \<le> 5 / 10 ^ 9 * K" "\<bar>e p\<bar> \<le> K" by simp_all
  have d: "\<bar>(S + t p) - (E + e p)\<bar> \<le> 6 / 10 ^ 9 * X + 5 / 10 ^ 9 * K"
    using IH(1) p(1) by linarith
  have M: "\<bar>E + e p\<bar> \<le> X + K" using IH(2) p(2) by linarith
  have range: "X + K + (6 / 10 ^ 9 * X + 5 / 10 ^ 9 * K) \<le> 10 ^ 6"
    using X K K128 by simp
  have "\<bar>rnd fo (S + t p) - (E + e p)\<bar>
        \<le> 6 / 10 ^ 9 * X + 5 / 10 ^ 9 * K + (X + K + (6 / 10 ^ 9 * X + 5 / 10 ^ 9 * K)) / 10 ^ 12
          + 1 / 10 ^ 20"
    using acc d M range by (rule rnd_error)
  also have "\<dots> \<le> 6 / 10 ^ 9 * (X + K)"
    using X K K1 by (simp add: field_simps)
  finally have err: "\<bar>rnd fo (S + t p) - (E + e p)\<bar> \<le> 6 / 10 ^ 9 * (X + K)" .
  have n: "real (length (ps @ [p])) * K = X + K"
    by (simp add: X_def algebra_simps)
  have "foldl (\<lambda>G p. rnd fo (G + t p)) 0 (ps @ [p]) = rnd fo (S + t p)"
    by (simp add: S_def)
  moreover have "(\<Sum>p\<leftarrow>ps @ [p]. e p) = E + e p" by (simp add: E_def)
  ultimately show ?case using err M by (simp only: n)
qed


text \<open>The scaling factor \<open>1./4. * alpha_v * alpha_u\<close>.\<close>

lemma sqrt2_inv_error:
  assumes acc: "float_accurate fo"
  shows "\<bar>rnd fo (1 / rnd fo (sqrt 2)) - 1 / sqrt 2\<bar> \<le> 8 / 10 ^ 12"
proof -
  define s where "s = rnd fo (sqrt 2)"
  have lo: "1 \<le> sqrt 2" by simp
  have hi: "\<bar>sqrt 2\<bar> \<le> 2" using sqrt2_less_2 by simp
  have "\<bar>s - sqrt 2\<bar> \<le> 0 + (2 + 0) / 10 ^ 12 + 1 / 10 ^ 20"
    unfolding s_def using hi by (intro rnd_error [OF acc]) simp_all
  then have e: "\<bar>s - sqrt 2\<bar> \<le> 3 / 10 ^ 12" by simp
  have "(3 :: real) / 10 ^ 12 \<le> 1 / 2" by simp
  with e lo have s: "1 / 2 \<le> s" by linarith
  have "1 / s - 1 / sqrt 2 = (sqrt 2 - s) / (s * sqrt 2)"
    using s lo by (simp add: field_simps)
  then have "\<bar>1 / s - 1 / sqrt 2\<bar> = \<bar>sqrt 2 - s\<bar> / (s * sqrt 2)"
    using s lo by (simp add: abs_mult)
  also have "\<dots> \<le> (3 / 10 ^ 12) / (1 / 2 * 1)"
  proof (rule frac_le)
    show "\<bar>sqrt 2 - s\<bar> \<le> 3 / 10 ^ 12" using e by (simp add: abs_minus_commute)
    show "1 / 2 * 1 \<le> s * sqrt 2" using s lo by (intro mult_mono) simp_all
  qed simp_all
  finally have d: "\<bar>1 / s - 1 / sqrt 2\<bar> \<le> 6 / 10 ^ 12" by simp
  have m: "\<bar>1 / sqrt 2\<bar> \<le> 1" using lo by simp
  have "\<bar>rnd fo (1 / s) - 1 / sqrt 2\<bar> \<le> 6 / 10 ^ 12 + (1 + 6 / 10 ^ 12) / 10 ^ 12 + 1 / 10 ^ 20"
    by (rule rnd_error [OF acc d m]) simp
  then show ?thesis unfolding s_def by simp
qed

lemma factor_error:
  assumes acc: "float_accurate fo"
    and "sqrt2_inv = rnd fo (1 / rnd fo (sqrt 2))"
    and "alpha_v = (if i_v = 0 then sqrt2_inv else 1)"
    and "alpha_u = (if i_u = 0 then sqrt2_inv else 1)"
  shows "\<bar>rnd fo (rnd fo (rnd fo (1 / 4) * alpha_v) * alpha_u) - 1 / 4 * alpha i_v * alpha i_u\<bar>
         \<le> 1 / 10 ^ 11"
    and "\<bar>1 / 4 * alpha i_v * alpha i_u\<bar> \<le> 1 / 4"
proof -
  have s: "\<bar>sqrt2_inv - 1 / sqrt 2\<bar> \<le> 8 / 10 ^ 12"
    unfolding assms(2) using acc by (rule sqrt2_inv_error)
  have av: "\<bar>alpha_v - alpha i_v\<bar> \<le> 8 / 10 ^ 12" and au: "\<bar>alpha_u - alpha i_u\<bar> \<le> 8 / 10 ^ 12"
    using s by (simp_all add: assms(3,4) alpha_def)
  have a1: "\<bar>alpha i\<bar> \<le> 1" for i by (simp add: alpha_def)
  have "\<bar>rnd fo (1 / 4) - 1 / 4\<bar> \<le> 0 + (1 / 4 + 0) / 10 ^ 12 + 1 / 10 ^ 20"
    by (intro rnd_error [OF acc]) simp_all
  then have q: "\<bar>rnd fo (1 / 4) - 1 / 4\<bar> \<le> 1 / 10 ^ 12" by simp
  have q4: "\<bar>1 / 4 :: real\<bar> \<le> 1 / 4" by simp
  have "\<bar>rnd fo (1 / 4) * alpha_v - 1 / 4 * alpha i_v\<bar>
        \<le> 1 / 10 ^ 12 * 1 + 1 / 4 * (8 / 10 ^ 12) + 1 / 10 ^ 12 * (8 / 10 ^ 12)"
    using q q4 av a1 by (rule mult_error)
  then have p1: "\<bar>rnd fo (1 / 4) * alpha_v - 1 / 4 * alpha i_v\<bar> \<le> 4 / 10 ^ 12" by simp
  have m1: "\<bar>1 / 4 * alpha i_v\<bar> \<le> 1 / 4" using a1 [of i_v] by (simp add: abs_mult)
  have "\<bar>rnd fo (rnd fo (1 / 4) * alpha_v) - 1 / 4 * alpha i_v\<bar>
        \<le> 4 / 10 ^ 12 + (1 / 4 + 4 / 10 ^ 12) / 10 ^ 12 + 1 / 10 ^ 20"
    by (rule rnd_error [OF acc p1 m1]) simp
  then have r1: "\<bar>rnd fo (rnd fo (1 / 4) * alpha_v) - 1 / 4 * alpha i_v\<bar> \<le> 5 / 10 ^ 12" by simp
  have "\<bar>rnd fo (rnd fo (1 / 4) * alpha_v) * alpha_u - 1 / 4 * alpha i_v * alpha i_u\<bar>
        \<le> 5 / 10 ^ 12 * 1 + 1 / 4 * (8 / 10 ^ 12) + 5 / 10 ^ 12 * (8 / 10 ^ 12)"
    using r1 m1 au a1 by (rule mult_error)
  then have p2: "\<bar>rnd fo (rnd fo (1 / 4) * alpha_v) * alpha_u - 1 / 4 * alpha i_v * alpha i_u\<bar>
        \<le> 8 / 10 ^ 12" by simp
  have "\<bar>1 / 4 * alpha i_v * alpha i_u\<bar> = \<bar>1 / 4 * alpha i_v\<bar> * \<bar>alpha i_u\<bar>"
    by (simp add: abs_mult)
  also have "\<dots> \<le> 1 / 4 * 1" using m1 a1 [of i_u] by (intro mult_mono) simp_all
  finally show m2: "\<bar>1 / 4 * alpha i_v * alpha i_u\<bar> \<le> 1 / 4" by simp
  have "\<bar>rnd fo (rnd fo (rnd fo (1 / 4) * alpha_v) * alpha_u) - 1 / 4 * alpha i_v * alpha i_u\<bar>
        \<le> 8 / 10 ^ 12 + (1 / 4 + 8 / 10 ^ 12) / 10 ^ 12 + 1 / 10 ^ 20"
    by (rule rnd_error [OF acc p2 m2]) simp
  then show "\<bar>rnd fo (rnd fo (rnd fo (1 / 4) * alpha_v) * alpha_u) - 1 / 4 * alpha i_v * alpha i_u\<bar>
         \<le> 1 / 10 ^ 11" by simp
qed


lemma cell_DCT:
  assumes "i_v < 8" "i_u < 8"
  shows "cell (perform_DCT_on_block fo g_int offset_y offset_x) (i_v, i_u) =
     rnd fo
       (foldl (\<lambda>G p. rnd fo (G + rnd fo (rnd fo
                 (real_of_int (sint (cell g_int (offset_y + fst p, offset_x + snd p)))
                  * cos_factor fo (snd p) i_u)
                 * cos_factor fo (fst p) i_v)))
          0 (List.product [0 ..< 8] [0 ..< 8])
        * rnd fo (rnd fo (rnd fo (1 / 4)
                          * (if i_v = 0 then rnd fo (1 / rnd fo (sqrt 2)) else 1))
                  * (if i_u = 0 then rnd fo (1 / rnd fo (sqrt 2)) else 1)))"
  using assms
  by (simp add: perform_DCT_on_block_def cell_def Let_def split_def)

lemma sum_list_product:
  "(\<Sum>p\<leftarrow>List.product ys xs. f p) = (\<Sum>y\<leftarrow>ys. \<Sum>x\<leftarrow>xs. (f (y, x) :: real))"
  by (induction ys) (simp_all add: comp_def)

lemma exact_uniform_value:
  assumes "i_v < 8" "i_u < 8"
  shows "g * cos_row i_u * cos_row i_v * (1 / 4 * alpha i_v * alpha i_u)
         = (if i_v = 0 \<and> i_u = 0 then 8 * g else 0)"
proof (cases "i_v = 0 \<and> i_u = 0")
  case True
  then have v0: "i_v = 0" and u0: "i_u = 0" by simp_all
  have "g * 8 * 8 * (1 / 4 * (alpha 0 * alpha 0)) = 8 * g"
    by (simp only: alpha_0_square)
  then have "g * cos_row 0 * cos_row 0 * (1 / 4 * alpha 0 * alpha 0) = 8 * g"
    by (simp only: cos_row_0 mult.assoc)
  then show ?thesis unfolding v0 u0 by simp
next
  case False
  then have "cos_row i_u = 0 \<or> cos_row i_v = 0"
    using assms cos_row_pos by auto
  with False show ?thesis by auto
qed

lemma DCT_uniform_cell_error_nonzero:
  assumes acc: "float_accurate fo"
    and window: "\<forall>i_y<8. \<forall>i_x<8. cell g_int (offset_y + i_y, offset_x + i_x) = k"
    and v: "i_v < 8" and u: "i_u < 8" and nz: "k \<noteq> 0"
  shows "\<bar>cell (perform_DCT_on_block fo g_int offset_y offset_x) (i_v, i_u)
          - (if i_v = 0 \<and> i_u = 0 then 8 * real_of_int (sint k) else 0)\<bar>
         \<le> 2 / 10 ^ 7 * \<bar>real_of_int (sint k)\<bar>"
proof -
  define K where "K = \<bar>real_of_int (sint k)\<bar>"
  define ps where "ps = List.product [0 ..< 8 :: nat] [0 ..< 8 :: nat]"
  define t where "t = (\<lambda>p. rnd fo (rnd fo
                 (real_of_int (sint (cell g_int (offset_y + fst p, offset_x + snd p)))
                  * cos_factor fo (snd p) i_u)
                 * cos_factor fo (fst p) i_v))"
  define e where "e = (\<lambda>p :: nat \<times> nat.
                 real_of_int (sint (cell g_int (offset_y + fst p, offset_x + snd p)))
                 * cos ((2 * real (snd p) + 1) * real i_u * pi / 16)
                 * cos ((2 * real (fst p) + 1) * real i_v * pi / 16))"
  define G where "G = foldl (\<lambda>G p. rnd fo (G + t p)) 0 ps"
  define E where "E = real_of_int (sint k) * cos_row i_u * cos_row i_v"
  define F where "F = rnd fo (rnd fo (rnd fo (1 / 4)
                          * (if i_v = 0 then rnd fo (1 / rnd fo (sqrt 2)) else 1))
                  * (if i_u = 0 then rnd fo (1 / rnd fo (sqrt 2)) else 1))"
  have "sint k \<noteq> 0"
  proof
    assume "sint k = 0"
    then have "(word_of_int (sint k) :: int8) = 0" by simp
    with nz show False by (simp only: word_of_int_sint_int8)
  qed
  then have "1 \<le> \<bar>sint k\<bar>" by linarith
  then have "real_of_int 1 \<le> real_of_int \<bar>sint k\<bar>" by (simp only: of_int_le_iff)
  then have K1: "1 \<le> K" by (simp only: K_def of_int_abs of_int_1)
  have "\<bar>sint k\<bar> \<le> 128" using sint_int8_range [of k] by linarith
  then have "real_of_int \<bar>sint k\<bar> \<le> real_of_int 128" by (simp only: of_int_le_iff)
  then have K128: "K \<le> 128" by (simp only: K_def of_int_abs of_int_numeral)
  have K: "0 \<le> K" using K1 by simp
  have len: "length ps = 64" by (simp add: ps_def)
  have terms: "\<forall>p \<in> set ps. \<bar>t p - e p\<bar> \<le> 5 / 10 ^ 9 * K \<and> \<bar>e p\<bar> \<le> K"
  proof
    fix p assume "p \<in> set ps"
    then have y: "fst p < 8" and x: "snd p < 8" by (auto simp: ps_def)
    with window have sample: "cell g_int (offset_y + fst p, offset_x + snd p) = k" by simp
    have cx: "\<bar>cos_factor fo (snd p) i_u - cos ((2 * real (snd p) + 1) * real i_u * pi / 16)\<bar>
              \<le> 1 / 10 ^ 9"
      using acc x u by (rule cos_factor_error)
    have cy: "\<bar>cos_factor fo (fst p) i_v - cos ((2 * real (fst p) + 1) * real i_v * pi / 16)\<bar>
              \<le> 1 / 10 ^ 9"
      using acc y v by (rule cos_factor_error)
    show "\<bar>t p - e p\<bar> \<le> 5 / 10 ^ 9 * K \<and> \<bar>e p\<bar> \<le> K"
      unfolding t_def e_def K_def sample
      using term_error [OF acc cx abs_cos_le_one cy abs_cos_le_one
          K1 [unfolded K_def] K128 [unfolded K_def]] by simp
  qed
  have sum: "(\<Sum>p\<leftarrow>ps. e p) = E"
    unfolding ps_def e_def E_def sum_list_product
    using DCT_sum_uniform [OF window, of i_u i_v] by simp
  from accumulate_error [OF acc K1 K128 terms] len
  have "\<bar>G - E\<bar> \<le> 6 / 10 ^ 9 * (64 * K)" and Eb: "\<bar>E\<bar> \<le> 64 * K"
    unfolding G_def sum by simp_all
  then have Gerr: "\<bar>G - E\<bar> \<le> 4 / 10 ^ 7 * K" using K by simp
  have Ferr: "\<bar>F - 1 / 4 * alpha i_v * alpha i_u\<bar> \<le> 1 / 10 ^ 11"
    and Fb: "\<bar>1 / 4 * alpha i_v * alpha i_u\<bar> \<le> 1 / 4"
    unfolding F_def using factor_error [OF acc refl refl refl] by simp_all
  have prod: "\<bar>G * F - E * (1 / 4 * alpha i_v * alpha i_u)\<bar> \<le> 11 / 10 ^ 8 * K"
    by (rule mult_error_scaled [OF K Gerr Eb Ferr Fb]) simp
  have "\<bar>E * (1 / 4 * alpha i_v * alpha i_u)\<bar> = \<bar>E\<bar> * \<bar>1 / 4 * alpha i_v * alpha i_u\<bar>"
    by (rule abs_mult)
  also have "\<dots> \<le> (64 * K) * (1 / 4)" using Eb Fb by (intro mult_mono) simp_all
  finally have prod_b: "\<bar>E * (1 / 4 * alpha i_v * alpha i_u)\<bar> \<le> 16 * K" by simp
  have final: "\<bar>rnd fo (G * F) - E * (1 / 4 * alpha i_v * alpha i_u)\<bar> \<le> 2 / 10 ^ 7 * K"
    by (rule rnd_error_scaled [OF acc K1 K128 prod prod_b]) simp_all
  have "cell (perform_DCT_on_block fo g_int offset_y offset_x) (i_v, i_u) = rnd fo (G * F)"
    unfolding G_def F_def t_def ps_def by (rule cell_DCT [OF v u])
  moreover have "E * (1 / 4 * alpha i_v * alpha i_u)
                 = (if i_v = 0 \<and> i_u = 0 then 8 * real_of_int (sint k) else 0)"
    unfolding E_def by (rule exact_uniform_value [OF v u])
  ultimately show ?thesis using final unfolding K_def by simp
qed


text \<open>A window of zeros: every product, every partial sum and the scaled sum are 0.\<close>

lemma accumulate_zeros:
  assumes "rnd fo 0 = 0"
  shows "(\<forall>p \<in> set ps. t p = 0) \<Longrightarrow> foldl (\<lambda>G p. rnd fo (G + t p)) 0 ps = 0"
proof (induction ps rule: rev_induct)
  case Nil
  show ?case by simp
next
  case (snoc p ps)
  then show ?case by (simp add: assms)
qed

lemma DCT_zero_cell:
  assumes acc: "float_accurate fo"
    and window: "\<forall>i_y<8. \<forall>i_x<8. cell g_int (offset_y + i_y, offset_x + i_x) = 0"
    and v: "i_v < 8" and u: "i_u < 8"
  shows "cell (perform_DCT_on_block fo g_int offset_y offset_x) (i_v, i_u) = 0"
proof -
  have r0: "rnd fo 0 = 0" using acc by (simp add: float_accurate_def)
  define ps where "ps = List.product [0 ..< 8 :: nat] [0 ..< 8 :: nat]"
  define t where "t = (\<lambda>p. rnd fo (rnd fo
                 (real_of_int (sint (cell g_int (offset_y + fst p, offset_x + snd p)))
                  * cos_factor fo (snd p) i_u)
                 * cos_factor fo (fst p) i_v))"
  define F where "F = rnd fo (rnd fo (rnd fo (1 / 4)
                          * (if i_v = 0 then rnd fo (1 / rnd fo (sqrt 2)) else 1))
                  * (if i_u = 0 then rnd fo (1 / rnd fo (sqrt 2)) else 1))"
  have "\<forall>p \<in> set ps. t p = 0"
  proof
    fix p assume "p \<in> set ps"
    then have "fst p < 8" and "snd p < 8" by (auto simp: ps_def)
    with window have "cell g_int (offset_y + fst p, offset_x + snd p) = 0" by simp
    then show "t p = 0" by (simp add: t_def r0)
  qed
  then have G: "foldl (\<lambda>G p. rnd fo (G + t p)) 0 ps = 0"
    by (rule accumulate_zeros [OF r0])
  have "cell (perform_DCT_on_block fo g_int offset_y offset_x) (i_v, i_u)
        = rnd fo (foldl (\<lambda>G p. rnd fo (G + t p)) 0 ps * F)"
    unfolding F_def t_def ps_def by (rule cell_DCT [OF v u])
  then show ?thesis by (simp add: G r0)
qed

text \<open>
  A window of uniform value: every cell of the transform is within \<open>2 / 10 ^ 7\<close> times
  the magnitude of the value of its exact value.
\<close>

lemma DCT_uniform_cell_error:
  assumes acc: "float_accurate fo"
    and window: "\<forall>i_y<8. \<forall>i_x<8. cell g_int (offset_y + i_y, offset_x + i_x) = k"
    and v: "i_v < 8" and u: "i_u < 8"
  shows "\<bar>cell (perform_DCT_on_block fo g_int offset_y offset_x) (i_v, i_u)
          - (if i_v = 0 \<and> i_u = 0 then 8 * real_of_int (sint k) else 0)\<bar>
         \<le> 2 / 10 ^ 7 * \<bar>real_of_int (sint k)\<bar>"
proof (cases "k = 0")
  case True
  with window have "\<forall>i_y<8. \<forall>i_x<8. cell g_int (offset_y + i_y, offset_x + i_x) = 0" by simp
  from DCT_zero_cell [OF acc this v u] True show ?thesis by simp
next
  case False
  with acc window v u show ?thesis by (rule DCT_uniform_cell_error_nonzero)
qed

lemma float_accurate_exact_ops: "float_accurate exact_ops"
  by (simp add: float_accurate_def exact_ops_def)

lemma claimed_DC_value: "g * 8 * alpha 0 * alpha 0 = 4 * g"
proof -
  have "g * 8 * (alpha 0 * alpha 0) = 4 * g" by (simp only: alpha_0_square)
  then show ?thesis by (simp only: mult.assoc)
qed

lemma actual_DC_value: "g * 16 * alpha 0 * alpha 0 = 8 * g"
proof -
  have "g * 16 * (alpha 0 * alpha 0) = 8 * g" by (simp only: alpha_0_square)
  then show ?thesis by (simp only: mult.assoc)
qed

text \<open>
  Whatever the rounding, the DC term of a uniform window of value \<open>k \<noteq> 0\<close> is not
  within one millionth of \<open>k * 8 * alpha(0) * alpha(0)\<close>.
\<close>

lemma DCT_claimed_DC_value_refuted:
  assumes acc: "float_accurate fo"
    and window: "\<forall>i_y<8. \<forall>i_x<8. cell g_int (offset_y + i_y, offset_x + i_x) = k"
    and "k \<noteq> 0"
  shows "\<not> \<bar>cell (perform_DCT_on_block fo g_int offset_y offset_x) (0, 0)
            - real_of_int (sint k) * 8 * alpha 0 * alpha 0\<bar>
          \<le> 1 / 10 ^ 6 * \<bar>real_of_int (sint k) * 8 * alpha 0 * alpha 0\<bar>"
proof -
  define g where "g = real_of_int (sint k)"
  define c where "c = cell (perform_DCT_on_block fo g_int offset_y offset_x) (0, 0)"
  have "sint k \<noteq> 0"
  proof
    assume "sint k = 0"
    then have "(word_of_int (sint k) :: int8) = 0" by simp
    with assms(3) show False by (simp only: word_of_int_sint_int8)
  qed
  then have "real_of_int (sint k) \<noteq> 0" by (simp only: of_int_eq_0_iff simp_thms)
  then have pos: "0 < \<bar>g\<bar>" unfolding g_def by (simp only: zero_less_abs_iff simp_thms)
  have "\<bar>c - 8 * g\<bar> \<le> 2 / 10 ^ 7 * \<bar>g\<bar>"
    unfolding c_def g_def using DCT_uniform_cell_error [OF acc window, of 0 0] by simp
  moreover have "\<bar>4 * g\<bar> = 4 * \<bar>g\<bar>" by (simp add: abs_mult)
  ultimately have "\<not> \<bar>c - 4 * g\<bar> \<le> 1 / 10 ^ 6 * \<bar>4 * g\<bar>"
    using pos by (simp add: field_simps abs_if split: if_splits)
  then show ?thesis unfolding c_def g_def claimed_DC_value .
qed

text \<open>
  The uniform block of value 1, transformed without any rounding error: the DC term
  is within \<open>2 / 10 ^ 7\<close> of 8, while \<open>k * 8 * alpha(0) * alpha(0)\<close> is 4, so the DC
  term is not within a relative tolerance of \<open>1 / 10 ^ 6\<close> of it.
\<close>

theorem DCT_uniform_counterexample:
  "float_accurate exact_ops
   \<and> real_of_int (sint (1 :: int8)) * 8 * alpha 0 * alpha 0 = 4
   \<and> \<bar>cell (perform_DCT_on_block exact_ops (uniform_block 1) 0 0) (0, 0) - 8\<bar> \<le> 2 / 10 ^ 7
   \<and> \<not> \<bar>cell (perform_DCT_on_block exact_ops (uniform_block 1) 0 0) (0, 0)
          - real_of_int (sint (1 :: int8)) * 8 * alpha 0 * alpha 0\<bar>
        \<le> 1 / 10 ^ 6 * \<bar>real_of_int (sint (1 :: int8)) * 8 * alpha 0 * alpha 0\<bar>"
proof -
  have one: "(1 :: int8) \<noteq> 0" by simp
  have "\<bar>cell (perform_DCT_on_block exact_ops (uniform_block 1) 0 0) (0, 0) - 8\<bar> \<le> 2 / 10 ^ 7"
    using DCT_uniform_cell_error [OF float_accurate_exact_ops uniform_window, of 0 0 1] by simp
  moreover have "real_of_int (sint (1 :: int8)) * 8 * alpha 0 * alpha 0 = 4"
    using claimed_DC_value [of 1] by simp
  ultimately show ?thesis
    using float_accurate_exact_ops
      DCT_claimed_DC_value_refuted [OF float_accurate_exact_ops uniform_window one]
    by blast
qed

text \<open>
  Claim C8, as the code has it. In any double-precision arithmetic that is accurate in
  the sense of \<open>float_accurate\<close>, the transform of a window of uniform value \<open>k\<close> has
  its DC term within a relative tolerance of \<open>1 / 10 ^ 6\<close> of
  \<open>k * 16 * alpha(0) * alpha(0)\<close>, which is \<open>8 * k\<close>; every other entry is zero within
  the same tolerance, that is, of magnitude at most \<open>1 / 10 ^ 6\<close> of the magnitude of
  the DC value; and the transform of the all-zero window is exactly zero everywhere.
\<close>

theorem DCT_of_uniform_block:
  assumes "float_accurate fo"
    and "\<forall>i_y<8. \<forall>i_x<8. cell g_int (offset_y + i_y, offset_x + i_x) = k"
    and "i_v < 8" and "i_u < 8"
  shows "(i_v = 0 \<and> i_u = 0 \<longrightarrow>
            \<bar>cell (perform_DCT_on_block fo g_int offset_y offset_x) (i_v, i_u)
              - real_of_int (sint k) * 16 * alpha 0 * alpha 0\<bar>
            \<le> 1 / 10 ^ 6 * \<bar>real_of_int (sint k) * 16 * alpha 0 * alpha 0\<bar>)
       \<and> (\<not> (i_v = 0 \<and> i_u = 0) \<longrightarrow>
            \<bar>cell (perform_DCT_on_block fo g_int offset_y offset_x) (i_v, i_u)\<bar>
            \<le> 1 / 10 ^ 6 * \<bar>real_of_int (sint k) * 16 * alpha 0 * alpha 0\<bar>)
       \<and> real_of_int (sint k) * 16 * alpha 0 * alpha 0 = 8 * real_of_int (sint k)
       \<and> (k = 0 \<longrightarrow> cell (perform_DCT_on_block fo g_int offset_y offset_x) (i_v, i_u) = 0)"
proof -
  define g where "g = real_of_int (sint k)"
  define c where "c = cell (perform_DCT_on_block fo g_int offset_y offset_x) (i_v, i_u)"
  have err: "\<bar>c - (if i_v = 0 \<and> i_u = 0 then 8 * g else 0)\<bar> \<le> 2 / 10 ^ 7 * \<bar>g\<bar>"
    unfolding c_def g_def using assms by (rule DCT_uniform_cell_error)
  have tol: "2 / 10 ^ 7 * \<bar>g\<bar> \<le> 1 / 10 ^ 6 * \<bar>8 * g\<bar>" by (simp add: abs_mult)
  have zero: "k = 0 \<longrightarrow> c = 0"
  proof
    assume "k = 0"
    then have "g = 0" by (simp add: g_def)
    with err show "c = 0" by (simp split: if_splits)
  qed
  from err tol zero show ?thesis
    unfolding c_def [symmetric] g_def [symmetric] actual_DC_value
    by (auto split: if_splits)
qed

text \<open>
  The uniform block of value 3 has a DC term within \<open>24 / 10 ^ 6\<close> of 24 and an entry
  at (2, 5) of magnitude at most \<open>24 / 10 ^ 6\<close>; the all-zero block has the entry 0 there.
\<close>

theorem DCT_of_uniform_block_witness:
  "float_accurate exact_ops
   \<and> cell (uniform_block (3 :: int8)) (0 + 7, 0 + 7) = 3
   \<and> \<bar>cell (perform_DCT_on_block exact_ops (uniform_block 3) 0 0) (0, 0) - 24\<bar> \<le> 24 / 10 ^ 6
   \<and> \<bar>cell (perform_DCT_on_block exact_ops (uniform_block 3) 0 0) (2, 5)\<bar> \<le> 24 / 10 ^ 6
   \<and> cell (perform_DCT_on_block exact_ops (uniform_block 0) 0 0) (2, 5) = 0"
proof -
  have z: "(0 :: nat) < 8" and t: "(2 :: nat) < 8" and f: "(5 :: nat) < 8" by simp_all
  have e: "real_of_int (sint (3 :: int8)) * 16 * alpha 0 * alpha 0 = 24"
    using actual_DC_value [of 3] by simp
  note dc = DCT_of_uniform_block [OF float_accurate_exact_ops uniform_window z z, of 3,
      unfolded e]
  note ac = DCT_of_uniform_block [OF float_accurate_exact_ops uniform_window t f, of 3,
      unfolded e]
  note zero = DCT_of_uniform_block [OF float_accurate_exact_ops uniform_window t f, of 0]
  have "\<bar>cell (perform_DCT_on_block exact_ops (uniform_block 3) 0 0) (0, 0) - 24\<bar> \<le> 24 / 10 ^ 6"
    using dc by simp
  moreover have "\<bar>cell (perform_DCT_on_block exact_ops (uniform_block 3) 0 0) (2, 5)\<bar> \<le> 24 / 10 ^ 6"
    using ac by simp
  moreover have "cell (perform_DCT_on_block exact_ops (uniform_block 0) 0 0) (2, 5) = 0"
    using zero by simp
  ultimately show ?thesis
    using float_accurate_exact_ops cell_uniform_block [of 7 7 "3 :: int8"] by simp
qed

end
